theory Spec2Isabelle
  imports Main "HOL-Library.Product_Lexorder"
begin


section \<open>The Minesweeper board engine\<close>

text \<open>
  A shallow embedding of the class \<open>Minesweeper\<close> of \<open>Minesweeper.py\<close>: the
  configuration, the engine state as a record that every method takes and returns, the
  two exceptions the methods can raise as values of a sum type, and the flood-reveal
  loop as a recursive function on its work list.
\<close>

subsection \<open>Data\<close>

type_synonym Coord = "int \<times> int"

record GameConfig =
  rows :: int
  cols :: int
  mines :: int

text \<open>
  The exceptions that can surface from the class: \<open>ValueError\<close> (raised by the
  constructor and by \<open>random.sample\<close>) and \<open>IndexError\<close> (a list subscript out of
  range).
\<close>

datatype error = ValueError | IndexError

text \<open>
  The engine state. The field \<open>mine_cells\<close> is the attribute \<open>self.mines\<close> (the name
  \<open>mines\<close> is taken by the configuration), \<open>mines_placed\<close> is \<open>self._mines_placed\<close>.
  The random generator \<open>self.rng\<close> is the stream of raw draws it is still going to
  produce (draw number \<open>i\<close> is \<open>rng s i\<close>); a seed fixes one such stream.
  The attribute \<open>start_time\<close> (wall-clock time, read by \<open>elapsed_seconds\<close> only) is
  left out.
\<close>

record engine =
  cfg :: GameConfig
  rng :: "nat \<Rightarrow> nat"
  mine_cells :: "Coord set"
  adj :: "int list list"
  revealed :: "Coord set"
  flags :: "Coord set"
  mines_placed :: bool
  game_over :: bool
  won :: bool

subsection \<open>Python lists\<close>

text \<open>
  A subscript \<open>xs[i]\<close>: a negative index counts from the end, and an index outside
  \<open>-len(xs) .. len(xs) - 1\<close> raises \<open>IndexError\<close>. \<open>py_index\<close> gives the position
  that is read or written.
\<close>

definition py_index :: "'a list \<Rightarrow> int \<Rightarrow> error + nat" where
  "py_index xs i =
     (if 0 \<le> i \<and> i < int (length xs) then Inr (nat i)
      else if i < 0 \<and> - int (length xs) \<le> i then Inr (nat (int (length xs) + i))
      else Inl IndexError)"

text \<open>\<open>self.adj[r][c]\<close>\<close>

definition adj_get :: "int list list \<Rightarrow> int \<Rightarrow> int \<Rightarrow> error + int" where
  "adj_get a r k =
     (case py_index a r of
        Inl e \<Rightarrow> Inl e
      | Inr i \<Rightarrow>
          (case py_index (a ! i) k of
             Inl e \<Rightarrow> Inl e
           | Inr j \<Rightarrow> Inr (a ! i ! j)))"

text \<open>
  \<open>self.adj[nr][nc] += 1\<close>. The rows of the grid are separate list objects (each is
  built by its own \<open>[0] * cfg.cols\<close>), so the update changes one row only.
\<close>

definition adj_incr :: "Coord \<Rightarrow> int list list \<Rightarrow> error + int list list" where
  "adj_incr p a =
     (case py_index a (fst p) of
        Inl e \<Rightarrow> Inl e
      | Inr i \<Rightarrow>
          (case py_index (a ! i) (snd p) of
             Inl e \<Rightarrow> Inl e
           | Inr j \<Rightarrow> Inr (a[i := (a ! i)[j := a ! i ! j + 1]])))"

text \<open>A \<open>for\<close> loop whose body may raise: the first exception ends the loop.\<close>

fun for_each :: "('a \<Rightarrow> 'b \<Rightarrow> error + 'b) \<Rightarrow> 'a list \<Rightarrow> 'b \<Rightarrow> error + 'b" where
  "for_each f [] b = Inr b"
| "for_each f (x # xs) b =
     (case f x b of Inl e \<Rightarrow> Inl e | Inr b' \<Rightarrow> for_each f xs b')"

subsection \<open>The random generator\<close>

text \<open>
  \<open>random.sample(population, k)\<close> of the Python standard library: it raises
  \<open>ValueError\<close> unless \<open>0 \<le> k \<le> len(population)\<close>, and otherwise returns \<open>k\<close>
  elements taken from \<open>k\<close> different positions of the population. Which positions
  depends on the generator's draws only. \<open>sample_pool\<close> is the library's selection
  from a pool: draw \<open>j\<close> below the size of the pool, take \<open>pool[j]\<close>, move the last
  element of the pool into the vacancy and shrink the pool by one. Every sequence of
  \<open>k\<close> different positions is the outcome of some stream of draws.
\<close>

fun sample_pool :: "(nat \<Rightarrow> nat) \<Rightarrow> 'a list \<Rightarrow> nat \<Rightarrow> 'a list" where
  "sample_pool g pool 0 = []"
| "sample_pool g pool (Suc k) =
     (pool ! (g 0 mod length pool)) #
       sample_pool (\<lambda>i. g (Suc i)) (butlast (pool[g 0 mod length pool := last pool])) k"

definition sample :: "(nat \<Rightarrow> nat) \<Rightarrow> 'a list \<Rightarrow> int \<Rightarrow> error + ('a list \<times> (nat \<Rightarrow> nat))" where
  "sample g population k =
     (if 0 \<le> k \<and> k \<le> int (length population)
      then Inr (sample_pool g population (nat k), \<lambda>i. g (i + nat k))
      else Inl ValueError)"

subsection \<open>The constructor and the board geometry\<close>

text \<open>\<open>Minesweeper.__init__\<close>: the only check is the upper bound on the mines.\<close>

definition create :: "GameConfig \<Rightarrow> (nat \<Rightarrow> nat) \<Rightarrow> error + engine" where
  "create c g =
     (if mines c \<ge> rows c * cols c then Inl ValueError
      else Inr \<lparr>cfg = c, rng = g, mine_cells = {},
                adj = replicate (nat (rows c)) (replicate (nat (cols c)) 0),
                revealed = {}, flags = {},
                mines_placed = False, game_over = False, won = False\<rparr>)"

definition in_bounds :: "GameConfig \<Rightarrow> int \<Rightarrow> int \<Rightarrow> bool" where
  "in_bounds c r k \<longleftrightarrow> 0 \<le> r \<and> r < rows c \<and> 0 \<le> k \<and> k < cols c"

definition neighbors :: "GameConfig \<Rightarrow> int \<Rightarrow> int \<Rightarrow> Coord list" where
  "neighbors c r k =
     [(r + dr, k + dc). dr \<leftarrow> [-1, 0, 1], dc \<leftarrow> [-1, 0, 1],
                        \<not> (dr = 0 \<and> dc = 0), in_bounds c (r + dr) (k + dc)]"

text \<open>\<open>[(r, c) for r in range(rows) for c in range(cols) if keep (r, c)]\<close>\<close>

definition cells_where :: "GameConfig \<Rightarrow> (Coord \<Rightarrow> bool) \<Rightarrow> Coord list" where
  "cells_where c keep =
     [(r, k). r \<leftarrow> [0 .. rows c - 1], k \<leftarrow> [0 .. cols c - 1], keep (r, k)]"

subsection \<open>Mine placement and adjacency counts\<close>

text \<open>
  \<open>_recompute_adjacency\<close>. The outer loop runs over a Python set; the model visits
  the mines in sorted order, and \<open>adj_order_irrelevant\<close> below shows that the
  resulting grid is the same for every order of visit.
\<close>

definition adj_from :: "GameConfig \<Rightarrow> Coord list \<Rightarrow> error + int list list" where
  "adj_from c ms =
     for_each (\<lambda>m a. for_each adj_incr (neighbors c (fst m) (snd m)) a) ms
       (replicate (nat (rows c)) (replicate (nat (cols c)) 0))"

definition recompute_adjacency :: "engine \<Rightarrow> error + engine" where
  "recompute_adjacency s =
     (case adj_from (cfg s) (sorted_list_of_set (mine_cells s)) of
        Inl e \<Rightarrow> Inl e
      | Inr a \<Rightarrow> Inr (s\<lparr>adj := a\<rparr>))"

definition place_mines_first_click_safe :: "engine \<Rightarrow> Coord \<Rightarrow> error + engine" where
  "place_mines_first_click_safe s safe =
     (let forbidden = insert safe (set (neighbors (cfg s) (fst safe) (snd safe)));
          candidates = cells_where (cfg s) (\<lambda>p. p \<notin> forbidden);
          candidates = (if int (length candidates) < mines (cfg s)
                        then cells_where (cfg s) (\<lambda>p. p \<noteq> safe) else candidates)
      in case sample (rng s) candidates (mines (cfg s)) of
           Inl e \<Rightarrow> Inl e
         | Inr (picked, g) \<Rightarrow>
             (case recompute_adjacency (s\<lparr>rng := g, mine_cells := set picked\<rparr>) of
                Inl e \<Rightarrow> Inl e
              | Inr s' \<Rightarrow> Inr (s'\<lparr>mines_placed := True\<rparr>)))"

subsection \<open>Flags, reveal, flood reveal, win check\<close>

definition toggle_flag :: "engine \<Rightarrow> int \<Rightarrow> int \<Rightarrow> engine" where
  "toggle_flag s r k =
     (if game_over s \<or> \<not> in_bounds (cfg s) r k then s
      else if (r, k) \<in> revealed s then s
      else if (r, k) \<in> flags s then s\<lparr>flags := flags s - {(r, k)}\<rparr>
      else s\<lparr>flags := insert (r, k) (flags s)\<rparr>)"

text \<open>
  The loop of \<open>_flood_reveal\<close>. The work list has its top at the head: \<open>stack.pop()\<close>
  takes the head, and the neighbours appended one after the other end up in reverse
  order on top.
\<close>

function flood_loop :: "engine \<Rightarrow> Coord list \<Rightarrow> error + engine" where
  "flood_loop s [] = Inr s"
| "flood_loop s (cell # stack) =
     (if cell \<in> revealed s \<or> cell \<in> flags s then flood_loop s stack
      else
        (case adj_get (adj s) (fst cell) (snd cell) of
           Inl e \<Rightarrow> Inl e
         | Inr a \<Rightarrow>
             (if a = 0
              then flood_loop (s\<lparr>revealed := insert cell (revealed s)\<rparr>)
                     (rev (filter (\<lambda>nb. nb \<notin> insert cell (revealed s) \<and> nb \<notin> mine_cells s
                                        \<and> nb \<notin> flags s)
                            (neighbors (cfg s) (fst cell) (snd cell))) @ stack)
              else flood_loop (s\<lparr>revealed := insert cell (revealed s)\<rparr>) stack)))"
  by pat_completeness auto


definition flood_reveal :: "engine \<Rightarrow> Coord \<Rightarrow> error + engine" where
  "flood_reveal s start = flood_loop s [start]"

definition check_win :: "engine \<Rightarrow> engine" where
  "check_win s =
     (if int (card (revealed s)) = rows (cfg s) * cols (cfg s) - mines (cfg s)
      then s\<lparr>game_over := True, won := True\<rparr> else s)"

definition reveal :: "engine \<Rightarrow> int \<Rightarrow> int \<Rightarrow> error + engine" where
  "reveal s r k =
     (if game_over s \<or> \<not> in_bounds (cfg s) r k then Inr s
      else if (r, k) \<in> flags s \<or> (r, k) \<in> revealed s then Inr s
      else
        (case (if \<not> mines_placed s then place_mines_first_click_safe s (r, k) else Inr s) of
           Inl e \<Rightarrow> Inl e
         | Inr s1 \<Rightarrow>
             (if (r, k) \<in> mine_cells s1
              then Inr (s1\<lparr>game_over := True, won := False,
                            revealed := insert (r, k) (revealed s1)\<rparr>)
              else (case flood_reveal s1 (r, k) of
                      Inl e \<Rightarrow> Inl e
                    | Inr s2 \<Rightarrow> Inr (check_win s2)))))"

subsection \<open>Runs of the engine\<close>

text \<open>
  One call of a state-changing method on an engine, and the states an engine can be
  in: those the constructor returns and those a method returns from such a state.
\<close>

inductive step :: "engine \<Rightarrow> engine \<Rightarrow> bool" where
  step_reveal: "reveal s r k = Inr s' \<Longrightarrow> step s s'"
| step_flag: "toggle_flag s r k = s' \<Longrightarrow> step s s'"

inductive reachable :: "engine \<Rightarrow> bool" where
  reach_create: "create c g = Inr s \<Longrightarrow> reachable s"
| reach_step: "reachable s \<Longrightarrow> step s s' \<Longrightarrow> reachable s'"

section \<open>Notions of the specification\<close>

text \<open>The coordinates of the board.\<close>

definition board :: "GameConfig \<Rightarrow> Coord set" where
  "board c = {p. in_bounds c (fst p) (snd p)}"

text \<open>
  A grid of the shape the constructor builds, and the entry of a board cell in it.
\<close>

definition grid_ok :: "GameConfig \<Rightarrow> int list list \<Rightarrow> bool" where
  "grid_ok c a \<longleftrightarrow> length a = nat (rows c) \<and> (\<forall>row \<in> set a. length row = nat (cols c))"

definition cell_of :: "int list list \<Rightarrow> Coord \<Rightarrow> int" where
  "cell_of a p = a ! nat (fst p) ! nat (snd p)"

text \<open>
  The count of the specification: the mines on the board at Chebyshev distance 1 of
  the cell, computed from the mine set alone.
\<close>

definition chebyshev :: "Coord \<Rightarrow> Coord \<Rightarrow> int" where
  "chebyshev p q = max \<bar>fst p - fst q\<bar> \<bar>snd p - snd q\<bar>"

definition count_adjacent_mines :: "GameConfig \<Rightarrow> Coord set \<Rightarrow> int \<Rightarrow> int \<Rightarrow> int" where
  "count_adjacent_mines c M r k =
     int (card (Set.filter (\<lambda>m. in_bounds c (fst m) (snd m) \<and> chebyshev m (r, k) = 1) M))"

text \<open>
  The invariant of the engine: the shape of the grid, the three sets inside the board,
  revealed and flagged cells apart, the mine count and the adjacency counts once the
  mines are placed, an untouched board before that, and the two outcomes told by the
  revealed set.
\<close>

definition engine_inv :: "engine \<Rightarrow> bool" where
  "engine_inv s \<longleftrightarrow>
     mines (cfg s) < rows (cfg s) * cols (cfg s) \<and>
     grid_ok (cfg s) (adj s) \<and>
     revealed s \<subseteq> board (cfg s) \<and> flags s \<subseteq> board (cfg s) \<and> mine_cells s \<subseteq> board (cfg s) \<and>
     revealed s \<inter> flags s = {} \<and>
     (mines_placed s \<longrightarrow> int (card (mine_cells s)) = mines (cfg s)) \<and>
     (mines_placed s \<longrightarrow>
        (\<forall>q \<in> board (cfg s).
           cell_of (adj s) q = count_adjacent_mines (cfg s) (mine_cells s) (fst q) (snd q))) \<and>
     (\<not> mines_placed s \<longrightarrow> revealed s = {} \<and> mine_cells s = {} \<and> \<not> game_over s) \<and>
     (won s \<longrightarrow> game_over s) \<and>
     (won s \<longleftrightarrow> revealed s \<inter> mine_cells s = {}
                \<and> int (card (revealed s)) = rows (cfg s) * cols (cfg s) - mines (cfg s)) \<and>
     (game_over s \<and> \<not> won s \<longleftrightarrow> revealed s \<inter> mine_cells s \<noteq> {})"

section \<open>Example games\<close>

text \<open>
  Engines obtained by running the methods. On a 2 by 2 board with one mine and a
  generator whose draws are all 0: the engine as constructed; after \<open>reveal(0, 0)\<close>
  (the mine is placed at \<open>(0, 1)\<close>); after \<open>reveal(0, 1)\<close> on top (the mine is hit);
  after \<open>reveal(1, 0)\<close> instead and then \<open>reveal(0, 1)\<close> (the mine is hit one
  reveal later); and with a flag on \<open>(1, 1)\<close>. On a 1 by 2 board with one mine:
  the engine as constructed and after \<open>reveal(0, 0)\<close>, which wins the game.
\<close>

definition zero_draws :: "nat \<Rightarrow> nat" where
  "zero_draws i = 0"

definition cfg_2x2 :: GameConfig where
  "cfg_2x2 = \<lparr>rows = 2, cols = 2, mines = 1\<rparr>"

definition fresh_2x2 :: engine where
  "fresh_2x2 = projr (create cfg_2x2 zero_draws)"

definition opened_2x2 :: engine where
  "opened_2x2 = projr (reveal fresh_2x2 0 0)"

definition lost_2x2 :: engine where
  "lost_2x2 = projr (reveal opened_2x2 0 1)"

definition two_safe_2x2 :: engine where
  "two_safe_2x2 = projr (reveal opened_2x2 1 0)"

definition late_loss_2x2 :: engine where
  "late_loss_2x2 = projr (reveal two_safe_2x2 0 1)"

definition flagged_2x2 :: engine where
  "flagged_2x2 = toggle_flag opened_2x2 1 1"

definition cfg_1x2 :: GameConfig where
  "cfg_1x2 = \<lparr>rows = 1, cols = 2, mines = 1\<rparr>"

definition fresh_1x2 :: engine where
  "fresh_1x2 = projr (create cfg_1x2 zero_draws)"

definition won_1x2 :: engine where
  "won_1x2 = projr (reveal fresh_1x2 0 0)"

text \<open>
  Scenario A of the specification: a 4 by 4 board with one mine, and a generator whose
  draws are all 11, so that the mine lands at \<open>(3, 3)\<close> when \<open>(0, 0)\<close> is revealed
  first.
\<close>

definition draws_11 :: "nat \<Rightarrow> nat" where
  "draws_11 i = 11"

definition cfg_4x4 :: GameConfig where
  "cfg_4x4 = \<lparr>rows = 4, cols = 4, mines = 1\<rparr>"

definition fresh_4x4 :: engine where
  "fresh_4x4 = projr (create cfg_4x4 draws_11)"

definition won_4x4 :: engine where
  "won_4x4 = projr (reveal fresh_4x4 0 0)"

text \<open>
  A configuration with a negative number of mines, which the constructor lets through.
\<close>

definition cfg_negative :: GameConfig where
  "cfg_negative = \<lparr>rows = 2, cols = 2, mines = -1\<rparr>"

definition fresh_negative :: engine where
  "fresh_negative = projr (create cfg_negative zero_draws)"

section \<open>Termination of the flood-reveal loop\<close>

text \<open>
  Termination: a cell that is marked either is on the board, and then the number of
  unrevealed board cells drops, or it is off the board, and then the work list holds
  one off-board cell less (the loop pushes board cells only); a cell that is skipped
  shortens the work list.
\<close>

lemma unrevealed_shrinks:
  assumes "cell \<notin> revealed s"
  shows "if in_bounds (cfg s) (fst cell) (snd cell)
         then card {p. in_bounds (cfg s) (fst p) (snd p) \<and> p \<notin> insert cell (revealed s)}
              < card {p. in_bounds (cfg s) (fst p) (snd p) \<and> p \<notin> revealed s}
         else {p. in_bounds (cfg s) (fst p) (snd p) \<and> p \<notin> insert cell (revealed s)}
              = {p. in_bounds (cfg s) (fst p) (snd p) \<and> p \<notin> revealed s}"
proof (cases "in_bounds (cfg s) (fst cell) (snd cell)")
  case True
  let ?B = "{p. in_bounds (cfg s) (fst p) (snd p) \<and> p \<notin> revealed s}"
  have "{p. in_bounds (cfg s) (fst p) (snd p)} \<subseteq> {0 ..< rows (cfg s)} \<times> {0 ..< cols (cfg s)}"
    by (auto simp: in_bounds_def)
  then have fin: "finite ?B"
    by (rule_tac finite_subset[of _ "{0 ..< rows (cfg s)} \<times> {0 ..< cols (cfg s)}"]) auto
  have "{p. in_bounds (cfg s) (fst p) (snd p) \<and> p \<notin> insert cell (revealed s)} \<subset> ?B"
    using True assms by auto
  then show ?thesis using fin True by (simp add: psubset_card_mono)
next
  case False
  then show ?thesis by auto
qed

termination flood_loop
proof (relation "measures
    [\<lambda>(s, st). card {p. in_bounds (cfg s) (fst p) (snd p) \<and> p \<notin> revealed s}
                + length (filter (\<lambda>p. \<not> in_bounds (cfg s) (fst p) (snd p)) st),
     \<lambda>(s, st). length st]", goal_cases)
  case 1
  show ?case by simp
next
  case (2 s cell stack)
  show ?case by auto
next
  case (3 s cell stack a)
  have pushed: "filter (\<lambda>p. \<not> in_bounds (cfg s) (fst p) (snd p))
              (filter (\<lambda>nb. nb \<notin> insert cell (revealed s) \<and> nb \<notin> mine_cells s \<and> nb \<notin> flags s)
                 (neighbors (cfg s) (fst cell) (snd cell))) = []"
    by (auto simp: neighbors_def filter_empty_conv)
  have "cell \<notin> revealed s" using 3 by simp
  from unrevealed_shrinks[OF this] pushed show ?case
    by (auto simp: rev_filter[symmetric] split: if_splits)
next
  case (4 s cell stack a)
  have "cell \<notin> revealed s" using 4 by simp
  from unrevealed_shrinks[OF this] show ?case
    by (auto split: if_splits)
qed

declare flood_loop.simps [simp del]



section \<open>Properties of the board geometry\<close>

lemma board_iff: "(r, k) \<in> board c \<longleftrightarrow> in_bounds c r k"
  by (simp add: board_def)

lemma board_eq_Times: "board c = {0 ..< rows c} \<times> {0 ..< cols c}"
  by (auto simp: board_def in_bounds_def)

lemma finite_board: "finite (board c)"
  by (simp add: board_eq_Times)

lemma card_board: "card (board c) = nat (rows c) * nat (cols c)"
  by (simp add: board_eq_Times card_cartesian_product)

lemma neighbors_filter:
  "neighbors c r k =
     filter (\<lambda>p. in_bounds c (fst p) (snd p))
       (map (\<lambda>d. (r + fst d, k + snd d))
          [(-1, -1), (-1, 0), (-1, 1), (0, -1), (0, 1), (1, -1), (1, 0), (1, 1)])"
  by (simp add: neighbors_def)

lemma offsets_iff:
  "(a :: int, b :: int) \<in> set [(-1, -1), (-1, 0), (-1, 1), (0, -1), (0, 1), (1, -1), (1, 0), (1, 1)]
     \<longleftrightarrow> (a, b) \<noteq> (0, 0) \<and> \<bar>a\<bar> \<le> 1 \<and> \<bar>b\<bar> \<le> 1"
proof -
  have a: "\<bar>a\<bar> \<le> 1 \<longleftrightarrow> a = -1 \<or> a = 0 \<or> a = 1" by arith
  have b: "\<bar>b\<bar> \<le> 1 \<longleftrightarrow> b = -1 \<or> b = 0 \<or> b = 1" by arith
  show ?thesis unfolding a b by auto
qed

lemma set_neighbors:
  "set (neighbors c r k) =
     {p \<in> board c. p \<noteq> (r, k) \<and> \<bar>fst p - r\<bar> \<le> 1 \<and> \<bar>snd p - k\<bar> \<le> 1}"
proof -
  have "p \<in> (\<lambda>d. (r + fst d, k + snd d)) `
          set [(-1, -1), (-1, 0), (-1, 1), (0, -1), (0, 1), (1, -1), (1, 0), (1, 1)]
        \<longleftrightarrow> (fst p - r, snd p - k) \<in>
          set [(-1, -1), (-1, 0), (-1, 1), (0, -1), (0, 1), (1, -1), (1, 0), (1, 1)]" for p
  proof
    assume "p \<in> (\<lambda>d. (r + fst d, k + snd d)) `
          set [(-1, -1), (-1, 0), (-1, 1), (0, -1), (0, 1), (1, -1), (1, 0), (1, 1)]"
    then obtain d where "d \<in> set [(-1, -1), (-1, 0), (-1, 1), (0, -1), (0, 1), (1, -1), (1, 0), (1, 1)]"
      and "p = (r + fst d, k + snd d)" by blast
    then have "(fst p - r, snd p - k) = d" by simp
    with \<open>d \<in> _\<close> show "(fst p - r, snd p - k) \<in>
          set [(-1, -1), (-1, 0), (-1, 1), (0, -1), (0, 1), (1, -1), (1, 0), (1, 1)]" by simp
  next
    assume h: "(fst p - r, snd p - k) \<in>
          set [(-1, -1), (-1, 0), (-1, 1), (0, -1), (0, 1), (1, -1), (1, 0), (1, 1)]"
    have "p = (\<lambda>d. (r + fst d, k + snd d)) (fst p - r, snd p - k)" by simp
    with h show "p \<in> (\<lambda>d. (r + fst d, k + snd d)) `
          set [(-1, -1), (-1, 0), (-1, 1), (0, -1), (0, 1), (1, -1), (1, 0), (1, 1)]"
      by (rule_tac image_eqI)
  qed
  then show ?thesis
    unfolding neighbors_filter set_filter set_map offsets_iff board_def
    by (auto simp: prod_eq_iff)
qed

lemma distinct_neighbors: "distinct (neighbors c r k)"
  unfolding neighbors_filter by (rule distinct_filter) simp

lemma neighbors_on_board: "p \<in> set (neighbors c r k) \<Longrightarrow> p \<in> board c"
  by (simp add: set_neighbors)

lemma neighbors_sym:
  "(r, k) \<in> board c \<Longrightarrow> p \<in> set (neighbors c r k) \<Longrightarrow> (r, k) \<in> set (neighbors c (fst p) (snd p))"
  by (auto simp: set_neighbors)

lemma cells_where_filter:
  "cells_where c keep = filter keep (List.product [0 .. rows c - 1] [0 .. cols c - 1])"
proof -
  have inner: "concat (map (\<lambda>k. if keep (r, k) then [(r, k)] else []) ks) = filter keep (map (Pair r) ks)"
    for r and ks :: "int list"
    by (induction ks) auto
  have "concat (map (\<lambda>r. concat (map (\<lambda>k. if keep (r, k) then [(r, k)] else []) ks)) rs)
        = filter keep (List.product rs ks)" for rs ks :: "int list"
    by (induction rs) (auto simp: inner)
  then show ?thesis by (simp add: cells_where_def)
qed

lemma set_cells_where: "set (cells_where c keep) = {p \<in> board c. keep p}"
  by (auto simp: cells_where_filter board_def in_bounds_def)

lemma distinct_cells_where: "distinct (cells_where c keep)"
  by (simp add: cells_where_filter distinct_product)

lemma length_cells_where: "length (cells_where c keep) = card {p \<in> board c. keep p}"
  using distinct_card[OF distinct_cells_where, of c keep] by (simp add: set_cells_where)

lemma length_cells_except:
  assumes "safe \<in> board c"
  shows "length (cells_where c (\<lambda>p. p \<noteq> safe)) = nat (rows c) * nat (cols c) - 1"
proof -
  have "{p \<in> board c. p \<noteq> safe} = board c - {safe}" by auto
  then show ?thesis using assms
    by (simp add: length_cells_where card_board[symmetric] finite_board)
qed

section \<open>Properties of the random sample\<close>

lemma length_sample_pool: "length (sample_pool g pool k) = k"
  by (induction k arbitrary: g pool) auto

lemma pool_step:
  assumes "distinct pool" and "j < length pool"
  shows "distinct (butlast (pool[j := last pool]))"
    and "set (butlast (pool[j := last pool])) = set pool - {pool ! j}"
    and "length (butlast (pool[j := last pool])) = length pool - 1"
proof -
  from assms(2) obtain xs l where pool: "pool = xs @ [l]"
    by (cases pool rule: rev_cases) auto
  from assms(1) pool have dx: "distinct xs" and l: "l \<notin> set xs" by auto
  show "length (butlast (pool[j := last pool])) = length pool - 1" by simp
  show "distinct (butlast (pool[j := last pool]))"
  proof (cases "j < length xs")
    case True
    then show ?thesis using dx l by (simp add: pool list_update_append1 distinct_list_update)
  next
    case False
    with assms(2) have "j = length xs" by (simp add: pool)
    then show ?thesis using dx by (simp add: pool)
  qed
  show "set (butlast (pool[j := last pool])) = set pool - {pool ! j}"
  proof (cases "j < length xs")
    case True
    then have "xs ! j \<in> set xs" by simp
    with l have "xs ! j \<noteq> l" by auto
    then show ?thesis using True dx l
      by (auto simp: pool list_update_append1 set_update_distinct nth_append)
  next
    case False
    with assms(2) have "j = length xs" by (simp add: pool)
    then show ?thesis using l by (auto simp: pool)
  qed
qed

lemma sample_pool_distinct_subset:
  "k \<le> length pool \<Longrightarrow> distinct pool \<Longrightarrow>
     distinct (sample_pool g pool k) \<and> set (sample_pool g pool k) \<subseteq> set pool"
proof (induction k arbitrary: g pool)
  case 0
  then show ?case by simp
next
  case (Suc k)
  let ?j = "g 0 mod length pool"
  let ?pool' = "butlast (pool[?j := last pool])"
  from Suc.prems(1) have "0 < length pool" by (cases pool) auto
  then have j: "?j < length pool" by (rule mod_less_divisor)
  note st = pool_step[OF Suc.prems(2) j]
  have "k \<le> length ?pool'" using Suc.prems(1) st(3) by simp
  from Suc.IH[OF this st(1), of "\<lambda>i. g (Suc i)"]
  have ih: "distinct (sample_pool (\<lambda>i. g (Suc i)) ?pool' k)"
    "set (sample_pool (\<lambda>i. g (Suc i)) ?pool' k) \<subseteq> set pool - {pool ! ?j}"
    using st(2) by auto
  have "pool ! ?j \<in> set pool" using j by simp
  then show ?case using ih by auto
qed

lemma sample_ok:
  assumes "0 \<le> k" and "k \<le> int (length population)" and "distinct population"
  obtains picked g' where "sample g population k = Inr (picked, g')"
    and "distinct picked" and "set picked \<subseteq> set population" and "int (length picked) = k"
proof -
  have "nat k \<le> length population" using assms by simp
  from sample_pool_distinct_subset[OF this assms(3), of g] assms(1,2) that show thesis
    by (simp add: sample_def length_sample_pool)
qed

lemma sample_fails: "k < 0 \<or> int (length population) < k \<Longrightarrow> sample g population k = Inl ValueError"
  by (auto simp: sample_def)

section \<open>Properties of the adjacency grid\<close>

lemma py_index_in_range: "0 \<le> i \<Longrightarrow> i < int (length xs) \<Longrightarrow> py_index xs i = Inr (nat i)"
  by (simp add: py_index_def)

lemma grid_ok_zero: "grid_ok c (replicate (nat (rows c)) (replicate (nat (cols c)) 0))"
  by (simp add: grid_ok_def)

lemma cell_of_zero:
  "p \<in> board c \<Longrightarrow> cell_of (replicate (nat (rows c)) (replicate (nat (cols c)) 0)) p = 0"
  by (auto simp: cell_of_def board_def in_bounds_def)

lemma grid_row:
  assumes "grid_ok c a" and "p \<in> board c"
  shows "nat (fst p) < length a" and "length (a ! nat (fst p)) = nat (cols c)"
    and "nat (snd p) < nat (cols c)"
    and "py_index a (fst p) = Inr (nat (fst p))"
    and "py_index (a ! nat (fst p)) (snd p) = Inr (nat (snd p))"
proof -
  from assms show r: "nat (fst p) < length a"
    by (auto simp: grid_ok_def board_def in_bounds_def)
  with assms(1) show l: "length (a ! nat (fst p)) = nat (cols c)"
    by (simp add: grid_ok_def)
  from assms(2) show k: "nat (snd p) < nat (cols c)"
    by (auto simp: board_def in_bounds_def)
  from assms show "py_index a (fst p) = Inr (nat (fst p))"
    by (intro py_index_in_range) (auto simp: grid_ok_def board_def in_bounds_def)
  from assms(2) l show "py_index (a ! nat (fst p)) (snd p) = Inr (nat (snd p))"
    by (intro py_index_in_range) (auto simp: board_def in_bounds_def)
qed

lemma adj_get_on_board:
  "grid_ok c a \<Longrightarrow> p \<in> board c \<Longrightarrow> adj_get a (fst p) (snd p) = Inr (cell_of a p)"
  by (simp add: adj_get_def grid_row cell_of_def)

lemma adj_incr_on_board:
  assumes "grid_ok c a" and "p \<in> board c"
  shows "adj_incr p a =
           Inr (a[nat (fst p) := (a ! nat (fst p))[nat (snd p) := cell_of a p + 1]])"
  using assms by (simp add: adj_incr_def grid_row cell_of_def)

lemma grid_ok_update:
  assumes "grid_ok c a" and "p \<in> board c"
  shows "grid_ok c (a[nat (fst p) := (a ! nat (fst p))[nat (snd p) := v]])"
  using assms grid_row(2)[OF assms]
  by (auto simp: grid_ok_def dest!: set_update_subset_insert[THEN subsetD])

lemma cell_of_update:
  assumes "grid_ok c a" and "p \<in> board c" and "q \<in> board c"
  shows "cell_of (a[nat (fst p) := (a ! nat (fst p))[nat (snd p) := v]]) q =
           (if q = p then v else cell_of a q)"
proof -
  note gp = grid_row[OF assms(1,2)] and gq = grid_row[OF assms(1,3)]
  have inj: "nat (fst q) = nat (fst p) \<and> nat (snd q) = nat (snd p) \<longleftrightarrow> q = p"
    using assms(2,3) by (auto simp: board_def in_bounds_def prod_eq_iff)
  show ?thesis
  proof (cases "nat (fst q) = nat (fst p)")
    case True
    then show ?thesis using gp gq inj
      by (auto simp: cell_of_def nth_list_update)
  next
    case False
    then show ?thesis using gp gq inj
      by (auto simp: cell_of_def nth_list_update)
  qed
qed

lemma for_each_adj_incr:
  assumes "grid_ok c a" and "set ps \<subseteq> board c"
  obtains a' where "for_each adj_incr ps a = Inr a'" and "grid_ok c a'"
    and "\<And>q. q \<in> board c \<Longrightarrow> cell_of a' q = cell_of a q + int (count_list ps q)"
proof -
  have "\<exists>a'. for_each adj_incr ps a = Inr a' \<and> grid_ok c a' \<and>
          (\<forall>q \<in> board c. cell_of a' q = cell_of a q + int (count_list ps q))"
    using assms
  proof (induction ps arbitrary: a)
    case Nil
    then show ?case by simp
  next
    case (Cons p ps)
    let ?a1 = "a[nat (fst p) := (a ! nat (fst p))[nat (snd p) := cell_of a p + 1]]"
    from Cons.prems have p: "p \<in> board c" and ps: "set ps \<subseteq> board c" by auto
    have ok1: "grid_ok c ?a1" by (rule grid_ok_update[OF Cons.prems(1) p])
    from Cons.IH[OF ok1 ps] obtain a' where a':
      "for_each adj_incr ps ?a1 = Inr a'" "grid_ok c a'"
      "\<forall>q \<in> board c. cell_of a' q = cell_of ?a1 q + int (count_list ps q)" by blast
    have "for_each adj_incr (p # ps) a = Inr a'"
      by (simp add: adj_incr_on_board[OF Cons.prems(1) p] a'(1))
    moreover have "\<forall>q \<in> board c. cell_of a' q = cell_of a q + int (count_list (p # ps) q)"
      using a'(3) by (auto simp: cell_of_update[OF Cons.prems(1) p])
    ultimately show ?case using a'(2) by blast
  qed
  then show thesis using that by blast
qed

lemma count_list_distinct: "distinct xs \<Longrightarrow> count_list xs x = (if x \<in> set xs then 1 else 0)"
  by (induction xs) auto

lemma for_each_mines:
  assumes "grid_ok c a"
  obtains a' where
    "for_each (\<lambda>m a. for_each adj_incr (neighbors c (fst m) (snd m)) a) ms a = Inr a'"
    and "grid_ok c a'"
    and "\<And>q. q \<in> board c \<Longrightarrow>
           cell_of a' q = cell_of a q
             + int (length (filter (\<lambda>m. q \<in> set (neighbors c (fst m) (snd m))) ms))"
proof -
  have "\<exists>a'. for_each (\<lambda>m a. for_each adj_incr (neighbors c (fst m) (snd m)) a) ms a = Inr a'
          \<and> grid_ok c a'
          \<and> (\<forall>q \<in> board c. cell_of a' q = cell_of a q
                + int (length (filter (\<lambda>m. q \<in> set (neighbors c (fst m) (snd m))) ms)))"
    using assms
  proof (induction ms arbitrary: a)
    case Nil
    then show ?case by simp
  next
    case (Cons m ms)
    have nb: "set (neighbors c (fst m) (snd m)) \<subseteq> board c"
      using neighbors_on_board by blast
    from for_each_adj_incr[OF Cons.prems nb] obtain a1 where a1:
      "for_each adj_incr (neighbors c (fst m) (snd m)) a = Inr a1" "grid_ok c a1"
      "\<And>q. q \<in> board c \<Longrightarrow>
         cell_of a1 q = cell_of a q + int (count_list (neighbors c (fst m) (snd m)) q)"
      by blast
    from Cons.IH[OF a1(2)] obtain a' where a':
      "for_each (\<lambda>m a. for_each adj_incr (neighbors c (fst m) (snd m)) a) ms a1 = Inr a'"
      "grid_ok c a'"
      "\<forall>q \<in> board c. cell_of a' q = cell_of a1 q
          + int (length (filter (\<lambda>m. q \<in> set (neighbors c (fst m) (snd m))) ms))"
      by blast
    have "for_each (\<lambda>m a. for_each adj_incr (neighbors c (fst m) (snd m)) a) (m # ms) a = Inr a'"
      by (simp add: a1(1) a'(1))
    moreover have "\<forall>q \<in> board c. cell_of a' q = cell_of a q
          + int (length (filter (\<lambda>m. q \<in> set (neighbors c (fst m) (snd m))) (m # ms)))"
      using a'(3) a1(3) by (simp add: count_list_distinct[OF distinct_neighbors])
    ultimately show ?case using a'(2) by blast
  qed
  then show thesis using that by blast
qed

lemma adj_from_ok:
  obtains a where "adj_from c ms = Inr a" and "grid_ok c a"
    and "\<And>q. q \<in> board c \<Longrightarrow>
           cell_of a q = int (length (filter (\<lambda>m. q \<in> set (neighbors c (fst m) (snd m))) ms))"
proof -
  from for_each_mines[OF grid_ok_zero, of c ms] obtain a where
    "for_each (\<lambda>m a. for_each adj_incr (neighbors c (fst m) (snd m)) a) ms
       (replicate (nat (rows c)) (replicate (nat (cols c)) 0)) = Inr a"
    "grid_ok c a"
    "\<And>q. q \<in> board c \<Longrightarrow>
       cell_of a q = cell_of (replicate (nat (rows c)) (replicate (nat (cols c)) 0)) q
         + int (length (filter (\<lambda>m. q \<in> set (neighbors c (fst m) (snd m))) ms))"
    by blast
  then show thesis using that[of a] by (simp add: adj_from_def cell_of_zero)
qed

lemma grid_ext:
  assumes "grid_ok c a" and "grid_ok c b"
    and "\<And>q. q \<in> board c \<Longrightarrow> cell_of a q = cell_of b q"
  shows "a = b"
proof (rule nth_equalityI)
  show "length a = length b" using assms(1,2) by (simp add: grid_ok_def)
next
  fix i assume i: "i < length a"
  then have ib: "i < length b" and ir: "i < nat (rows c)"
    using assms(1,2) by (simp_all add: grid_ok_def)
  have la: "length (a ! i) = nat (cols c)" and lb: "length (b ! i) = nat (cols c)"
    using assms(1,2) i ib by (simp_all add: grid_ok_def)
  show "a ! i = b ! i"
  proof (rule nth_equalityI)
    show "length (a ! i) = length (b ! i)" using la lb by simp
  next
    fix j assume "j < length (a ! i)"
    then have "(int i, int j) \<in> board c" using ir la
      by (auto simp: board_def in_bounds_def)
    from assms(3)[OF this] show "a ! i ! j = b ! i ! j" by (simp add: cell_of_def)
  qed
qed

text \<open>The order in which the loop visits the mines does not change the grid.\<close>

lemma adj_order_irrelevant:
  assumes "distinct ms" and "distinct ms'" and "set ms = set ms'"
  shows "adj_from c ms = adj_from c ms'"
proof -
  obtain a where a: "adj_from c ms = Inr a" "grid_ok c a"
    "\<And>q. q \<in> board c \<Longrightarrow>
       cell_of a q = int (length (filter (\<lambda>m. q \<in> set (neighbors c (fst m) (snd m))) ms))"
    using adj_from_ok[of c ms] by blast
  obtain b where b: "adj_from c ms' = Inr b" "grid_ok c b"
    "\<And>q. q \<in> board c \<Longrightarrow>
       cell_of b q = int (length (filter (\<lambda>m. q \<in> set (neighbors c (fst m) (snd m))) ms'))"
    using adj_from_ok[of c ms'] by blast
  have "length (filter P ms) = length (filter P ms')" for P
  proof -
    have "card (set (filter P ms)) = card (set (filter P ms'))" using assms(3) by simp
    moreover have "card (set (filter P ms)) = length (filter P ms)"
      using assms(1) by (intro distinct_card) simp
    moreover have "card (set (filter P ms')) = length (filter P ms')"
      using assms(2) by (intro distinct_card) simp
    ultimately show ?thesis by simp
  qed
  then have "a = b" using a b by (intro grid_ext[of c]) simp_all
  then show ?thesis using a(1) b(1) by simp
qed

lemma neighbors_chebyshev:
  "m \<in> set (neighbors c r k) \<longleftrightarrow> in_bounds c (fst m) (snd m) \<and> chebyshev m (r, k) = 1"
  by (cases m) (auto simp: set_neighbors board_def chebyshev_def max_def)

lemma count_near_mines:
  assumes "distinct ms" and "set ms \<subseteq> board c" and "(r, k) \<in> board c"
  shows "int (length (filter (\<lambda>m. (r, k) \<in> set (neighbors c (fst m) (snd m))) ms))
           = count_adjacent_mines c (set ms) r k"
proof -
  have "filter (\<lambda>m. (r, k) \<in> set (neighbors c (fst m) (snd m))) ms
          = filter (\<lambda>m. m \<in> set (neighbors c r k)) ms"
  proof (rule filter_cong[OF refl])
    fix m assume "m \<in> set ms"
    then have m: "(fst m, snd m) \<in> board c" using assms(2) by auto
    show "((r, k) \<in> set (neighbors c (fst m) (snd m))) = (m \<in> set (neighbors c r k))"
      using neighbors_sym[OF m, of "(r, k)"] neighbors_sym[OF assms(3), of m] by auto
  qed
  moreover have "set (filter (\<lambda>m. m \<in> set (neighbors c r k)) ms)
      = Set.filter (\<lambda>m. in_bounds c (fst m) (snd m) \<and> chebyshev m (r, k) = 1) (set ms)"
    by (auto simp: neighbors_chebyshev)
  moreover have "card (set (filter (\<lambda>m. m \<in> set (neighbors c r k)) ms))
      = length (filter (\<lambda>m. m \<in> set (neighbors c r k)) ms)"
    using assms(1) by (intro distinct_card) simp
  ultimately show ?thesis
    by (simp only: count_adjacent_mines_def)
qed

section \<open>Mine placement\<close>

lemma recompute_adjacency_ok:
  assumes "finite (mine_cells s)" and "mine_cells s \<subseteq> board (cfg s)"
  obtains a where "recompute_adjacency s = Inr (s\<lparr>adj := a\<rparr>)" and "grid_ok (cfg s) a"
    and "\<And>q. q \<in> board (cfg s) \<Longrightarrow>
           cell_of a q = count_adjacent_mines (cfg s) (mine_cells s) (fst q) (snd q)"
proof -
  let ?ms = "sorted_list_of_set (mine_cells s)"
  have ms: "distinct ?ms" "set ?ms = mine_cells s" using assms(1) by simp_all
  obtain a where a: "adj_from (cfg s) ?ms = Inr a" "grid_ok (cfg s) a"
    "\<And>q. q \<in> board (cfg s) \<Longrightarrow>
       cell_of a q = int (length (filter (\<lambda>m. q \<in> set (neighbors (cfg s) (fst m) (snd m))) ?ms))"
    using adj_from_ok[of "cfg s" ?ms] by blast
  have "cell_of a q = count_adjacent_mines (cfg s) (mine_cells s) (fst q) (snd q)"
    if q: "q \<in> board (cfg s)" for q
  proof -
    have "(fst q, snd q) \<in> board (cfg s)" using q by simp
    from count_near_mines[OF ms(1) _ this] assms(2) ms(2) a(3)[OF q] show ?thesis by simp
  qed
  moreover have "recompute_adjacency s = Inr (s\<lparr>adj := a\<rparr>)"
    by (simp add: recompute_adjacency_def a(1))
  ultimately show thesis using that a(2) by blast
qed

lemma place_mines_ok:
  assumes "0 \<le> mines (cfg s)" and "mines (cfg s) < int (card (board (cfg s)))"
  obtains M a g where
    "place_mines_first_click_safe s safe =
       Inr (s\<lparr>rng := g, mine_cells := M, adj := a, mines_placed := True\<rparr>)"
    and "finite M" and "int (card M) = mines (cfg s)" and "M \<subseteq> board (cfg s)" and "safe \<notin> M"
    and "grid_ok (cfg s) a"
    and "\<And>q. q \<in> board (cfg s) \<Longrightarrow>
           cell_of a q = count_adjacent_mines (cfg s) M (fst q) (snd q)"
proof -
  let ?c = "cfg s"
  define cand0 where
    "cand0 = cells_where ?c (\<lambda>p. p \<notin> insert safe (set (neighbors ?c (fst safe) (snd safe))))"
  define cand where
    "cand = (if int (length cand0) < mines ?c then cells_where ?c (\<lambda>p. p \<noteq> safe) else cand0)"
  have dist: "distinct cand" by (simp add: cand_def cand0_def distinct_cells_where)
  have sub: "set cand \<subseteq> board ?c - {safe}" by (auto simp: cand_def cand0_def set_cells_where)
  have enough: "mines ?c \<le> int (length cand)"
  proof (cases "int (length cand0) < mines ?c")
    case True
    have "card (board ?c) - 1 \<le> card (board ?c - {safe})"
      using finite_board[of ?c] by (simp add: card_Diff_singleton_if)
    moreover have "{p \<in> board ?c. p \<noteq> safe} = board ?c - {safe}" by auto
    ultimately have "card (board ?c) - 1 \<le> length (cells_where ?c (\<lambda>p. p \<noteq> safe))"
      by (simp add: length_cells_where)
    then show ?thesis using True assms(2) by (simp add: cand_def)
  next
    case False
    then show ?thesis by (simp add: cand_def)
  qed
  from sample_ok[OF assms(1) enough dist, of "rng s"] obtain picked g where pk:
    "sample (rng s) cand (mines ?c) = Inr (picked, g)" "distinct picked"
    "set picked \<subseteq> set cand" "int (length picked) = mines ?c" by blast
  let ?s1 = "s\<lparr>rng := g, mine_cells := set picked\<rparr>"
  have "finite (mine_cells ?s1)" "mine_cells ?s1 \<subseteq> board (cfg ?s1)"
    using pk(3) sub by auto
  from recompute_adjacency_ok[OF this] obtain a where a:
    "recompute_adjacency ?s1 = Inr (?s1\<lparr>adj := a\<rparr>)" "grid_ok ?c a"
    "\<And>q. q \<in> board ?c \<Longrightarrow> cell_of a q = count_adjacent_mines ?c (set picked) (fst q) (snd q)"
    by auto
  have "place_mines_first_click_safe s safe =
          Inr (s\<lparr>rng := g, mine_cells := set picked, adj := a, mines_placed := True\<rparr>)"
    unfolding place_mines_first_click_safe_def Let_def cand0_def[symmetric] cand_def[symmetric] pk(1)
    by (simp add: a(1))
  moreover have "int (card (set picked)) = mines ?c"
    using pk(2,4) by (simp add: distinct_card)
  moreover have "set picked \<subseteq> board ?c" "safe \<notin> set picked" using pk(3) sub by auto
  ultimately show thesis using that[where M = "set picked" and a = a and g = g] a(2,3) by blast
qed

lemma place_mines_negative:
  "mines (cfg s) < 0 \<Longrightarrow> place_mines_first_click_safe s safe = Inl ValueError"
  by (simp add: place_mines_first_click_safe_def Let_def sample_fails)

section \<open>The flood-reveal loop\<close>

text \<open>
  What the loop does on an engine whose grid has the board's shape, from a work list of
  board cells: it returns, it changes the revealed set only, and the cells it adds are
  unflagged board cells, none of them a mine unless the work list held one.
\<close>

lemma flood_loop_ok:
  "grid_ok (cfg s) (adj s) \<Longrightarrow> set stack \<subseteq> board (cfg s) \<Longrightarrow>
     \<exists>R. flood_loop s stack = Inr (s\<lparr>revealed := R\<rparr>)
       \<and> revealed s \<subseteq> R \<and> R \<subseteq> revealed s \<union> board (cfg s)
       \<and> R \<inter> flags s \<subseteq> revealed s
       \<and> set stack \<subseteq> R \<union> flags s
       \<and> R \<inter> mine_cells s \<subseteq> revealed s \<union> set stack"
proof (induction s stack rule: flood_loop.induct)
  case (1 s)
  show ?case by (rule exI[of _ "revealed s"]) (simp add: flood_loop.simps)
next
  case (2 s cell stack)
  from "2.prems" have cell: "cell \<in> board (cfg s)" and st: "set stack \<subseteq> board (cfg s)" by auto
  show ?case
  proof (cases "cell \<in> revealed s \<or> cell \<in> flags s")
    case True
    from "2.IH"(1)[OF True "2.prems"(1) st] obtain R where R:
      "flood_loop s stack = Inr (s\<lparr>revealed := R\<rparr>)"
      "revealed s \<subseteq> R" "R \<subseteq> revealed s \<union> board (cfg s)" "R \<inter> flags s \<subseteq> revealed s"
      "set stack \<subseteq> R \<union> flags s" "R \<inter> mine_cells s \<subseteq> revealed s \<union> set stack" by blast
    have "flood_loop s (cell # stack) = Inr (s\<lparr>revealed := R\<rparr>)"
      using True R(1) by (simp add: flood_loop.simps)
    moreover have "set (cell # stack) \<subseteq> R \<union> flags s" using True R(2,5) by auto
    moreover have "R \<inter> mine_cells s \<subseteq> revealed s \<union> set (cell # stack)" using R(6) by auto
    ultimately show ?thesis using R(2,3,4) by (intro exI[of _ R] conjI)
  next
    case False
    let ?s1 = "s\<lparr>revealed := insert cell (revealed s)\<rparr>"
    let ?push = "rev (filter (\<lambda>nb. nb \<notin> insert cell (revealed s) \<and> nb \<notin> mine_cells s
                                        \<and> nb \<notin> flags s)
                            (neighbors (cfg s) (fst cell) (snd cell)))"
    have get: "adj_get (adj s) (fst cell) (snd cell) = Inr (cell_of (adj s) cell)"
      by (rule adj_get_on_board[OF "2.prems"(1) cell])
    have g1: "grid_ok (cfg ?s1) (adj ?s1)" using "2.prems"(1) by simp
    have push: "set ?push \<subseteq> board (cfg s)" "set ?push \<inter> mine_cells s = {}"
      using neighbors_on_board by auto
    show ?thesis
    proof (cases "cell_of (adj s) cell = 0")
      case True
      have "set (?push @ stack) \<subseteq> board (cfg ?s1)" using push(1) st by simp
      from "2.IH"(2)[OF False get True g1 this] obtain R where R:
        "flood_loop ?s1 (?push @ stack) = Inr (s\<lparr>revealed := R\<rparr>)"
        "insert cell (revealed s) \<subseteq> R" "R \<subseteq> insert cell (revealed s) \<union> board (cfg s)"
        "R \<inter> flags s \<subseteq> insert cell (revealed s)"
        "set (?push @ stack) \<subseteq> R \<union> flags s"
        "R \<inter> mine_cells s \<subseteq> insert cell (revealed s) \<union> set (?push @ stack)" by auto
      have "flood_loop s (cell # stack) = Inr (s\<lparr>revealed := R\<rparr>)"
        using False get True R(1) by (simp add: flood_loop.simps)
      moreover have "R \<subseteq> revealed s \<union> board (cfg s)" using R(3) cell by auto
      moreover have "R \<inter> flags s \<subseteq> revealed s" using R(4) False by auto
      moreover have "set (cell # stack) \<subseteq> R \<union> flags s" using R(2,5) by auto
      moreover have "R \<inter> mine_cells s \<subseteq> revealed s \<union> set (cell # stack)"
        using R(6) push(2) by auto
      moreover have "revealed s \<subseteq> R" using R(2) by auto
      ultimately show ?thesis by (intro exI[of _ R] conjI)
    next
      case nz: False
      have "set stack \<subseteq> board (cfg ?s1)" using st by simp
      from "2.IH"(3)[OF False get nz g1 this] obtain R where R:
        "flood_loop ?s1 stack = Inr (s\<lparr>revealed := R\<rparr>)"
        "insert cell (revealed s) \<subseteq> R" "R \<subseteq> insert cell (revealed s) \<union> board (cfg s)"
        "R \<inter> flags s \<subseteq> insert cell (revealed s)"
        "set stack \<subseteq> R \<union> flags s"
        "R \<inter> mine_cells s \<subseteq> insert cell (revealed s) \<union> set stack" by auto
      have "flood_loop s (cell # stack) = Inr (s\<lparr>revealed := R\<rparr>)"
        using False get nz R(1) by (simp add: flood_loop.simps)
      moreover have "R \<subseteq> revealed s \<union> board (cfg s)" using R(3) cell by auto
      moreover have "R \<inter> flags s \<subseteq> revealed s" using R(4) False by auto
      moreover have "set (cell # stack) \<subseteq> R \<union> flags s" using R(2,5) by auto
      moreover have "R \<inter> mine_cells s \<subseteq> revealed s \<union> set (cell # stack)"
        using R(6) by auto
      moreover have "revealed s \<subseteq> R" using R(2) by auto
      ultimately show ?thesis by (intro exI[of _ R] conjI)
    qed
  qed
qed






section \<open>The invariant of the engine\<close>

lemma engine_invD:
  assumes "engine_inv s"
  shows "mines (cfg s) < rows (cfg s) * cols (cfg s)"
    and "grid_ok (cfg s) (adj s)"
    and "revealed s \<subseteq> board (cfg s)" and "flags s \<subseteq> board (cfg s)"
    and "mine_cells s \<subseteq> board (cfg s)"
    and "revealed s \<inter> flags s = {}"
    and "mines_placed s \<Longrightarrow> int (card (mine_cells s)) = mines (cfg s)"
    and "mines_placed s \<Longrightarrow> q \<in> board (cfg s) \<Longrightarrow>
           cell_of (adj s) q = count_adjacent_mines (cfg s) (mine_cells s) (fst q) (snd q)"
    and "\<not> mines_placed s \<Longrightarrow> revealed s = {} \<and> mine_cells s = {} \<and> \<not> game_over s"
    and "won s \<Longrightarrow> game_over s"
    and "won s \<longleftrightarrow> revealed s \<inter> mine_cells s = {}
                \<and> int (card (revealed s)) = rows (cfg s) * cols (cfg s) - mines (cfg s)"
    and "game_over s \<and> \<not> won s \<longleftrightarrow> revealed s \<inter> mine_cells s \<noteq> {}"
  using assms unfolding engine_inv_def by blast+

lemma card_board_int: "p \<in> board c \<Longrightarrow> int (card (board c)) = rows c * cols c"
proof -
  assume "p \<in> board c"
  then have "0 \<le> rows c" "0 \<le> cols c" by (auto simp: board_def in_bounds_def)
  then show ?thesis by (simp add: card_board nat_mult_distrib[symmetric])
qed

lemma create_inv: "create c g = Inr s \<Longrightarrow> engine_inv s"
  by (auto simp: create_def engine_inv_def grid_ok_zero split: if_splits)

lemma toggle_flag_inv: "engine_inv s \<Longrightarrow> engine_inv (toggle_flag s r k)"
  unfolding engine_inv_def toggle_flag_def by (auto simp: board_def)

lemma place_mines_inv:
  assumes "engine_inv s" and "\<not> mines_placed s" and "0 \<le> mines (cfg s)"
    and "safe \<in> board (cfg s)"
  obtains s1 where "place_mines_first_click_safe s safe = Inr s1"
    and "engine_inv s1" and "mines_placed s1" and "\<not> game_over s1" and "safe \<notin> mine_cells s1"
    and "cfg s1 = cfg s" and "flags s1 = flags s" and "revealed s1 = {}"
proof -
  note i = engine_invD[OF assms(1)]
  have "mines (cfg s) < int (card (board (cfg s)))"
    using i(1) card_board_int[OF assms(4)] by simp
  from place_mines_ok[OF assms(3) this, of safe] obtain M a g where p:
    "place_mines_first_click_safe s safe =
       Inr (s\<lparr>rng := g, mine_cells := M, adj := a, mines_placed := True\<rparr>)"
    "finite M" "int (card M) = mines (cfg s)" "M \<subseteq> board (cfg s)" "safe \<notin> M"
    "grid_ok (cfg s) a"
    "\<And>q. q \<in> board (cfg s) \<Longrightarrow> cell_of a q = count_adjacent_mines (cfg s) M (fst q) (snd q)"
    by metis
  let ?s1 = "s\<lparr>rng := g, mine_cells := M, adj := a, mines_placed := True\<rparr>"
  have "engine_inv ?s1"
    unfolding engine_inv_def using i(1,4) i(9)[OF assms(2)] i(10) p(3,4,6,7)
    by auto
  then show thesis using that[of ?s1] p(1,5) i(9)[OF assms(2)] by simp
qed

section \<open>What a reveal does\<close>

lemma reveal_noop:
  "game_over s \<or> \<not> in_bounds (cfg s) r k \<or> (r, k) \<in> flags s \<or> (r, k) \<in> revealed s
     \<Longrightarrow> reveal s r k = Inr s"
  by (auto simp: reveal_def)

lemma reveal_negative_mines:
  "\<not> game_over s \<Longrightarrow> in_bounds (cfg s) r k \<Longrightarrow> (r, k) \<notin> flags s \<Longrightarrow> (r, k) \<notin> revealed s
     \<Longrightarrow> \<not> mines_placed s \<Longrightarrow> mines (cfg s) < 0 \<Longrightarrow> reveal s r k = Inl ValueError"
  by (simp add: reveal_def place_mines_negative)

lemma flood_reveal_ok:
  assumes "engine_inv s" and "\<not> game_over s" and "p \<in> board (cfg s)"
    and "p \<notin> flags s" and "p \<notin> mine_cells s"
  obtains R where "flood_reveal s p = Inr (s\<lparr>revealed := R\<rparr>)"
    and "insert p (revealed s) \<subseteq> R" and "R \<subseteq> board (cfg s)"
    and "R \<inter> flags s = {}" and "R \<inter> mine_cells s = {}"
proof -
  note i = engine_invD[OF assms(1)]
  have "set [p] \<subseteq> board (cfg s)" using assms(3) by simp
  from flood_loop_ok[OF i(2) this] obtain R where R:
    "flood_loop s [p] = Inr (s\<lparr>revealed := R\<rparr>)"
    "revealed s \<subseteq> R" "R \<subseteq> revealed s \<union> board (cfg s)" "R \<inter> flags s \<subseteq> revealed s"
    "set [p] \<subseteq> R \<union> flags s" "R \<inter> mine_cells s \<subseteq> revealed s \<union> set [p]"
    by (elim exE conjE)
  have nomine: "revealed s \<inter> mine_cells s = {}" using i(12) assms(2) by simp
  have "flood_reveal s p = Inr (s\<lparr>revealed := R\<rparr>)" by (simp add: flood_reveal_def R(1))
  moreover have "insert p (revealed s) \<subseteq> R" using R(2,5) assms(4) by auto
  moreover have "R \<subseteq> board (cfg s)" using R(3) i(3) by auto
  moreover have "R \<inter> flags s = {}" using R(4) i(6) by auto
  moreover have "R \<inter> mine_cells s = {}" using R(6) nomine assms(5) by auto
  ultimately show thesis by (rule that)
qed

lemma hit_inv:
  assumes "engine_inv s" and "mines_placed s" and "p \<in> board (cfg s)"
    and "p \<notin> flags s" and "p \<in> mine_cells s"
  shows "engine_inv (s\<lparr>game_over := True, won := False, revealed := insert p (revealed s)\<rparr>)"
  using engine_invD(1-8)[OF assms(1)] assms(2-5) unfolding engine_inv_def by auto

lemma check_win_inv:
  assumes "engine_inv s" and "mines_placed s" and "\<not> game_over s"
    and "R \<subseteq> board (cfg s)" and "R \<inter> flags s = {}" and "R \<inter> mine_cells s = {}"
  shows "engine_inv (check_win (s\<lparr>revealed := R\<rparr>))"
proof -
  note i = engine_invD[OF assms(1)]
  have "\<not> won s" using i(10) assms(3) by auto
  then show ?thesis
    using i(1,2,4,5) i(7)[OF assms(2)] i(8)[OF assms(2)] assms(2-6)
    unfolding engine_inv_def check_win_def by auto
qed

lemma reveal_effective:
  assumes "engine_inv s" and "\<not> game_over s" and "in_bounds (cfg s) r k"
    and "(r, k) \<notin> flags s" and "(r, k) \<notin> revealed s"
    and "mines_placed s \<or> 0 \<le> mines (cfg s)"
  obtains s1 R where
    "if mines_placed s then s1 = s else place_mines_first_click_safe s (r, k) = Inr s1"
    and "engine_inv s1" and "mines_placed s1" and "\<not> game_over s1"
    and "cfg s1 = cfg s" and "flags s1 = flags s" and "revealed s1 = revealed s"
    and "\<not> mines_placed s \<Longrightarrow> (r, k) \<notin> mine_cells s1"
    and "(r, k) \<in> mine_cells s1 \<Longrightarrow>
           reveal s r k = Inr (s1\<lparr>game_over := True, won := False,
                                  revealed := insert (r, k) (revealed s1)\<rparr>)"
    and "(r, k) \<notin> mine_cells s1 \<Longrightarrow>
           reveal s r k = Inr (check_win (s1\<lparr>revealed := R\<rparr>))
           \<and> flood_reveal s1 (r, k) = Inr (s1\<lparr>revealed := R\<rparr>)
           \<and> insert (r, k) (revealed s) \<subseteq> R \<and> R \<subseteq> board (cfg s)
           \<and> R \<inter> flags s = {} \<and> R \<inter> mine_cells s1 = {}"
proof -
  have p: "(r, k) \<in> board (cfg s)" using assms(3) by (simp add: board_def)
  obtain s1 where s1:
    "if mines_placed s then s1 = s else place_mines_first_click_safe s (r, k) = Inr s1"
    "engine_inv s1" "mines_placed s1" "\<not> game_over s1"
    "cfg s1 = cfg s" "flags s1 = flags s" "revealed s1 = revealed s"
    "\<not> mines_placed s \<Longrightarrow> (r, k) \<notin> mine_cells s1"
  proof (cases "mines_placed s")
    case True
    then show thesis using that[of s] assms(1,2) by simp
  next
    case False
    with assms(6) have "0 \<le> mines (cfg s)" by simp
    from place_mines_inv[OF assms(1) False this p] obtain s1 where
      "place_mines_first_click_safe s (r, k) = Inr s1"
      "engine_inv s1" "mines_placed s1" "\<not> game_over s1" "(r, k) \<notin> mine_cells s1"
      "cfg s1 = cfg s" "flags s1 = flags s" "revealed s1 = {}" by metis
    then show thesis using that[of s1] False engine_invD(9)[OF assms(1) False] by simp
  qed
  have pre: "(if \<not> mines_placed s then place_mines_first_click_safe s (r, k) else Inr s) = Inr s1"
    using s1(1) by (simp split: if_splits)
  have unfold: "reveal s r k =
      (if (r, k) \<in> mine_cells s1
       then Inr (s1\<lparr>game_over := True, won := False, revealed := insert (r, k) (revealed s1)\<rparr>)
       else (case flood_reveal s1 (r, k) of Inl e \<Rightarrow> Inl e | Inr s2 \<Rightarrow> Inr (check_win s2)))"
    unfolding reveal_def pre using assms(2-5) by simp
  show thesis
  proof (cases "(r, k) \<in> mine_cells s1")
    case True
    show thesis
      by (rule that[of s1 "{}"]) (use s1 True unfold in simp_all)
  next
    case False
    have "(r, k) \<in> board (cfg s1)" "(r, k) \<notin> flags s1" using p assms(4) s1(5,6) by simp_all
    from flood_reveal_ok[OF s1(2,4) this False] obtain R where R:
      "flood_reveal s1 (r, k) = Inr (s1\<lparr>revealed := R\<rparr>)"
      "insert (r, k) (revealed s1) \<subseteq> R" "R \<subseteq> board (cfg s1)"
      "R \<inter> flags s1 = {}" "R \<inter> mine_cells s1 = {}" by metis
    show thesis
      by (rule that[of s1 R]) (use s1 False unfold R in simp_all)
  qed
qed

lemma reveal_inv:
  assumes "engine_inv s" and "reveal s r k = Inr s'"
  shows "engine_inv s'"
proof (cases "game_over s \<or> \<not> in_bounds (cfg s) r k \<or> (r, k) \<in> flags s \<or> (r, k) \<in> revealed s")
  case True
  from reveal_noop[OF this] assms show ?thesis by simp
next
  case False
  then have e: "\<not> game_over s" "in_bounds (cfg s) r k" "(r, k) \<notin> flags s" "(r, k) \<notin> revealed s"
    by simp_all
  have "mines_placed s \<or> 0 \<le> mines (cfg s)"
    using reveal_negative_mines[OF e] assms(2) by fastforce
  from reveal_effective[OF assms(1) e this] obtain s1 R where s1:
    "engine_inv s1" "mines_placed s1" "\<not> game_over s1"
    "cfg s1 = cfg s" "flags s1 = flags s" "revealed s1 = revealed s"
    "(r, k) \<in> mine_cells s1 \<Longrightarrow>
           reveal s r k = Inr (s1\<lparr>game_over := True, won := False,
                                  revealed := insert (r, k) (revealed s1)\<rparr>)"
    "(r, k) \<notin> mine_cells s1 \<Longrightarrow>
           reveal s r k = Inr (check_win (s1\<lparr>revealed := R\<rparr>))
           \<and> flood_reveal s1 (r, k) = Inr (s1\<lparr>revealed := R\<rparr>)
           \<and> insert (r, k) (revealed s) \<subseteq> R \<and> R \<subseteq> board (cfg s)
           \<and> R \<inter> flags s = {} \<and> R \<inter> mine_cells s1 = {}" by metis
  have p: "(r, k) \<in> board (cfg s1)" "(r, k) \<notin> flags s1"
    using e(2,3) s1(4,5) by (simp_all add: board_def)
  show ?thesis
  proof (cases "(r, k) \<in> mine_cells s1")
    case True
    from hit_inv[OF s1(1,2) p True] s1(7)[OF True] assms(2) show ?thesis by simp
  next
    case False
    from s1(8)[OF False] have "s' = check_win (s1\<lparr>revealed := R\<rparr>)"
      "R \<subseteq> board (cfg s1)" "R \<inter> flags s1 = {}" "R \<inter> mine_cells s1 = {}"
      using assms(2) s1(4,5) by simp_all
    with check_win_inv[OF s1(1,2,3)] show ?thesis by simp
  qed
qed

lemma step_inv: "engine_inv s \<Longrightarrow> step s s' \<Longrightarrow> engine_inv s'"
  by (auto elim!: step.cases intro: reveal_inv toggle_flag_inv)

lemma reachable_inv: "reachable s \<Longrightarrow> engine_inv s"
  by (induction rule: reachable.induct) (auto intro: create_inv step_inv)

lemma step_game_over: "game_over s \<Longrightarrow> step s s' \<Longrightarrow> s' = s"
  by (auto elim!: step.cases simp: reveal_def toggle_flag_def)

lemma steps_game_over: "step\<^sup>*\<^sup>* s s' \<Longrightarrow> game_over s \<Longrightarrow> s' = s"
  by (induction rule: rtranclp_induct) (auto dest: step_game_over)

lemma reveal_reachable: "reachable s \<Longrightarrow> reveal s r k = Inr s' \<Longrightarrow> reachable s'"
  by (rule reach_step[OF _ step_reveal])

lemma steps_mines_fixed:
  "step\<^sup>*\<^sup>* s s' \<Longrightarrow> reachable s \<Longrightarrow> mines_placed s \<Longrightarrow>
     reachable s' \<and> mines_placed s' \<and> mine_cells s' = mine_cells s \<and> cfg s' = cfg s \<and> adj s' = adj s"
proof (induction rule: rtranclp_induct)
  case base
  then show ?case by simp
next
  case (step t u)
  then have t: "reachable t" "mines_placed t" "mine_cells t = mine_cells s" "cfg t = cfg s"
    "adj t = adj s" by simp_all
  have u: "reachable u" by (rule reach_step[OF t(1) step.hyps(2)])
  from step.hyps(2) have "mines_placed u \<and> mine_cells u = mine_cells t \<and> cfg u = cfg t \<and> adj u = adj t"
  proof (cases rule: step.cases)
    case (step_flag r k)
    then show ?thesis using t(2) by (auto simp: toggle_flag_def split: if_splits)
  next
    case (step_reveal r k)
    show ?thesis
    proof (cases "game_over t \<or> \<not> in_bounds (cfg t) r k \<or> (r, k) \<in> flags t \<or> (r, k) \<in> revealed t")
      case True
      from reveal_noop[OF this] step_reveal t(2) show ?thesis by simp
    next
      case False
      then have e: "\<not> game_over t" "in_bounds (cfg t) r k" "(r, k) \<notin> flags t" "(r, k) \<notin> revealed t"
        "mines_placed t \<or> 0 \<le> mines (cfg t)" using t(2) by simp_all
      from reveal_effective[OF reachable_inv[OF t(1)] e] obtain s1 R where s1:
        "if mines_placed t then s1 = t else place_mines_first_click_safe t (r, k) = Inr s1"
        "(r, k) \<in> mine_cells s1 \<Longrightarrow>
           reveal t r k = Inr (s1\<lparr>game_over := True, won := False,
                                  revealed := insert (r, k) (revealed s1)\<rparr>)"
        "(r, k) \<notin> mine_cells s1 \<Longrightarrow>
           reveal t r k = Inr (check_win (s1\<lparr>revealed := R\<rparr>))
           \<and> flood_reveal s1 (r, k) = Inr (s1\<lparr>revealed := R\<rparr>)
           \<and> insert (r, k) (revealed t) \<subseteq> R \<and> R \<subseteq> board (cfg t)
           \<and> R \<inter> flags t = {} \<and> R \<inter> mine_cells s1 = {}" by metis
      from s1(1) t(2) have eq: "s1 = t" by simp
      show ?thesis
      proof (cases "(r, k) \<in> mine_cells s1")
        case True
        from s1(2)[OF True] step_reveal eq t(2) show ?thesis by auto
      next
        case False
        from s1(3)[OF False] step_reveal eq t(2) show ?thesis by (auto simp: check_win_def)
      qed
    qed
  qed
  then show ?case using t u by simp
qed



section \<open>The example games, evaluated\<close>

lemma create_2x2: "create cfg_2x2 zero_draws = Inr fresh_2x2"
proof -
  have "\<not> isl (create cfg_2x2 zero_draws)" by code_simp
  then show ?thesis by (simp add: fresh_2x2_def)
qed

lemma reveal_fresh_2x2: "reveal fresh_2x2 0 0 = Inr opened_2x2"
proof -
  have "\<not> isl (reveal fresh_2x2 0 0)" by code_simp
  then show ?thesis by (simp add: opened_2x2_def)
qed

lemma reveal_opened_2x2: "reveal opened_2x2 0 1 = Inr lost_2x2"
proof -
  have "\<not> isl (reveal opened_2x2 0 1)" by code_simp
  then show ?thesis by (simp add: lost_2x2_def)
qed

lemma fresh_2x2_fields:
  "cfg fresh_2x2 = cfg_2x2 \<and> mine_cells fresh_2x2 = {} \<and> adj fresh_2x2 = [[0, 0], [0, 0]]
   \<and> revealed fresh_2x2 = {} \<and> flags fresh_2x2 = {} \<and> \<not> mines_placed fresh_2x2
   \<and> \<not> game_over fresh_2x2 \<and> \<not> won fresh_2x2"
  by code_simp

lemma opened_2x2_fields:
  "cfg opened_2x2 = cfg_2x2 \<and> mine_cells opened_2x2 = {(0, 1)}
   \<and> adj opened_2x2 = [[1, 0], [1, 1]]
   \<and> revealed opened_2x2 = {(0, 0)} \<and> flags opened_2x2 = {} \<and> mines_placed opened_2x2
   \<and> \<not> game_over opened_2x2 \<and> \<not> won opened_2x2"
  by code_simp

lemma lost_2x2_fields:
  "cfg lost_2x2 = cfg_2x2 \<and> mine_cells lost_2x2 = {(0, 1)}
   \<and> adj lost_2x2 = [[1, 0], [1, 1]]
   \<and> revealed lost_2x2 = {(0, 0), (0, 1)} \<and> flags lost_2x2 = {} \<and> mines_placed lost_2x2
   \<and> game_over lost_2x2 \<and> \<not> won lost_2x2"
  by code_simp

lemma reachable_fresh_2x2: "reachable fresh_2x2"
  by (rule reach_create[OF create_2x2])

lemma reachable_opened_2x2: "reachable opened_2x2"
  by (rule reach_step[OF reachable_fresh_2x2 step_reveal[OF reveal_fresh_2x2]])

lemma reachable_lost_2x2: "reachable lost_2x2"
  by (rule reach_step[OF reachable_opened_2x2 step_reveal[OF reveal_opened_2x2]])

text \<open>
  The same game lost one reveal later: two safe cells and then the mine are revealed, so
  the lost game has \<open>rows * cols - mines\<close> revealed cells.
\<close>

lemma reveal_two_safe_2x2: "reveal opened_2x2 1 0 = Inr two_safe_2x2"
proof -
  have "\<not> isl (reveal opened_2x2 1 0)" by code_simp
  then show ?thesis by (simp add: two_safe_2x2_def)
qed

lemma reveal_late_loss_2x2: "reveal two_safe_2x2 0 1 = Inr late_loss_2x2"
proof -
  have "\<not> isl (reveal two_safe_2x2 0 1)" by code_simp
  then show ?thesis by (simp add: late_loss_2x2_def)
qed

lemma reachable_late_loss_2x2: "reachable late_loss_2x2"
  by (rule reach_step[OF reach_step[OF reachable_opened_2x2 step_reveal[OF reveal_two_safe_2x2]]
        step_reveal[OF reveal_late_loss_2x2]])

lemma late_loss_2x2_fields:
  "revealed late_loss_2x2 = {(0, 0), (1, 0), (0, 1)} \<and> mine_cells late_loss_2x2 = {(0, 1)}
   \<and> game_over late_loss_2x2 \<and> \<not> won late_loss_2x2
   \<and> int (card (revealed late_loss_2x2))
       = rows (cfg late_loss_2x2) * cols (cfg late_loss_2x2) - mines (cfg late_loss_2x2)"
  by code_simp

lemma reachable_flagged_2x2: "reachable flagged_2x2"
  unfolding flagged_2x2_def by (rule reach_step[OF reachable_opened_2x2 step_flag[OF refl]])

lemma flagged_2x2_fields:
  "revealed flagged_2x2 = {(0, 0)} \<and> flags flagged_2x2 = {(1, 1)} \<and> \<not> game_over flagged_2x2"
  by code_simp

lemma create_1x2: "create cfg_1x2 zero_draws = Inr fresh_1x2"
proof -
  have "\<not> isl (create cfg_1x2 zero_draws)" by code_simp
  then show ?thesis by (simp add: fresh_1x2_def)
qed

lemma reveal_fresh_1x2: "reveal fresh_1x2 0 0 = Inr won_1x2"
proof -
  have "\<not> isl (reveal fresh_1x2 0 0)" by code_simp
  then show ?thesis by (simp add: won_1x2_def)
qed

lemma won_1x2_fields:
  "cfg won_1x2 = cfg_1x2 \<and> mine_cells won_1x2 = {(0, 1)} \<and> adj won_1x2 = [[1, 0]]
   \<and> revealed won_1x2 = {(0, 0)} \<and> flags won_1x2 = {} \<and> mines_placed won_1x2
   \<and> game_over won_1x2 \<and> won won_1x2"
  by code_simp

lemma reachable_fresh_1x2: "reachable fresh_1x2"
  by (rule reach_create[OF create_1x2])

lemma reachable_won_1x2: "reachable won_1x2"
  by (rule reach_step[OF reachable_fresh_1x2 step_reveal[OF reveal_fresh_1x2]])

lemma create_negative: "create cfg_negative zero_draws = Inr fresh_negative"
proof -
  have "\<not> isl (create cfg_negative zero_draws)" by code_simp
  then show ?thesis by (simp add: fresh_negative_def)
qed

lemma fresh_negative_fields:
  "cfg fresh_negative = cfg_negative \<and> mine_cells fresh_negative = {}
   \<and> adj fresh_negative = [[0, 0], [0, 0]]
   \<and> revealed fresh_negative = {} \<and> flags fresh_negative = {} \<and> \<not> mines_placed fresh_negative
   \<and> \<not> game_over fresh_negative \<and> \<not> won fresh_negative"
  by code_simp





text \<open>
  The first reveal floods the whole board but the mine, and the game is won at once.
\<close>

lemma won_4x4_fields:
  "\<not> isl (reveal fresh_4x4 0 0) \<and> mine_cells won_4x4 = {(3, 3)}
   \<and> adj won_4x4 = [[0, 0, 0, 0], [0, 0, 0, 0], [0, 0, 1, 1], [0, 0, 1, 0]]
   \<and> revealed won_4x4 = board cfg_4x4 - {(3, 3)}
   \<and> game_over won_4x4 \<and> won won_4x4"
proof -
  have "\<not> isl (reveal fresh_4x4 0 0) \<and> mine_cells won_4x4 = {(3, 3)}
   \<and> adj won_4x4 = [[0, 0, 0, 0], [0, 0, 0, 0], [0, 0, 1, 1], [0, 0, 1, 0]]
   \<and> revealed won_4x4 = set (cells_where cfg_4x4 (\<lambda>p. p \<noteq> (3, 3)))
   \<and> game_over won_4x4 \<and> won won_4x4"
    by code_simp
  then show ?thesis by (auto simp: set_cells_where)
qed

section \<open>The claims\<close>

text \<open>
  C1. For a configuration with \<open>0 \<le> mines < rows * cols\<close>, a board cell \<open>(r, k)\<close>
  and any stream of draws \<open>g\<close>: the constructor returns an engine, the first
  \<open>reveal(r, k)\<close> on it returns, the cell is revealed and is not a mine, and the game is
  over afterwards only if it is won.
\<close>

theorem first_reveal_is_safe:
  assumes "0 \<le> mines c" and "mines c < rows c * cols c" and "in_bounds c r k"
  shows "\<exists>s s'. create c g = Inr s \<and> reveal s r k = Inr s'
           \<and> mines_placed s' \<and> (r, k) \<notin> mine_cells s' \<and> (r, k) \<in> revealed s'
           \<and> (game_over s' \<longrightarrow> won s')"
proof -
  obtain s where s: "create c g = Inr s" using assms(2) by (auto simp: create_def)
  then have f: "cfg s = c" "\<not> mines_placed s" "\<not> game_over s" "flags s = {}" "revealed s = {}"
    by (auto simp: create_def split: if_splits)
  have e: "\<not> game_over s" "in_bounds (cfg s) r k" "(r, k) \<notin> flags s" "(r, k) \<notin> revealed s"
    "mines_placed s \<or> 0 \<le> mines (cfg s)"
    using f assms by simp_all
  from reveal_effective[OF create_inv[OF s] e] obtain s1 R where s1:
    "engine_inv s1" "mines_placed s1" "\<not> game_over s1"
    "\<not> mines_placed s \<Longrightarrow> (r, k) \<notin> mine_cells s1"
    "(r, k) \<notin> mine_cells s1 \<Longrightarrow>
           reveal s r k = Inr (check_win (s1\<lparr>revealed := R\<rparr>))
           \<and> flood_reveal s1 (r, k) = Inr (s1\<lparr>revealed := R\<rparr>)
           \<and> insert (r, k) (revealed s) \<subseteq> R \<and> R \<subseteq> board (cfg s)
           \<and> R \<inter> flags s = {} \<and> R \<inter> mine_cells s1 = {}" by metis
  have safe: "(r, k) \<notin> mine_cells s1" using s1(4) f(2) by simp
  let ?s' = "check_win (s1\<lparr>revealed := R\<rparr>)"
  have "reveal s r k = Inr ?s'" and "(r, k) \<in> R" using s1(5)[OF safe] by auto
  moreover have "mines_placed ?s'" "(r, k) \<notin> mine_cells ?s'" "(r, k) \<in> revealed ?s'"
    "game_over ?s' \<longrightarrow> won ?s'"
    using s1(2,3) safe \<open>(r, k) \<in> R\<close> by (simp_all add: check_win_def)
  ultimately show ?thesis using s by (intro exI[of _ s] exI[of _ ?s'] conjI)
qed

theorem first_reveal_is_safe_witness:
  "0 \<le> mines cfg_2x2 \<and> mines cfg_2x2 < rows cfg_2x2 * cols cfg_2x2 \<and> in_bounds cfg_2x2 0 0
   \<and> create cfg_2x2 zero_draws = Inr fresh_2x2 \<and> reveal fresh_2x2 0 0 = Inr opened_2x2
   \<and> (0, 0) \<notin> mine_cells opened_2x2 \<and> (0, 0) \<in> revealed opened_2x2
   \<and> \<not> game_over opened_2x2"
proof -
  have h: "0 \<le> mines cfg_2x2" "mines cfg_2x2 < rows cfg_2x2 * cols cfg_2x2" "in_bounds cfg_2x2 0 0"
    by (simp_all add: cfg_2x2_def in_bounds_def)
  from first_reveal_is_safe[OF h, of zero_draws] h create_2x2 reveal_fresh_2x2 opened_2x2_fields
  show ?thesis by simp
qed

text \<open>
  C2. In every reachable state the game is won exactly if no mine is revealed and the
  number of revealed cells is \<open>rows * cols - mines\<close>. After a \<open>reveal\<close> that does not
  leave the game lost, the game is won (\<open>won\<close> and \<open>game_over\<close> both set) exactly if
  the number of revealed cells is \<open>rows * cols - mines\<close>; a \<open>reveal\<close> of a mine in a
  game that is not over sets \<open>game_over\<close> and clears \<open>won\<close>; \<open>won\<close> is never set
  without \<open>game_over\<close>; and once \<open>game_over\<close> is set no sequence of calls changes the
  engine, so the outcome stays. The count alone does not tell a won game from a lost
  one: the reveal that hits the mine adds the mine to the revealed cells, and in
  \<open>late_loss_2x2\<close> the lost game has \<open>rows * cols - mines\<close> revealed cells, also
  after a further \<open>reveal\<close> of a cell that is not a mine.
\<close>

theorem win_exactly_when_safe_cells_revealed:
  assumes "reachable s"
  shows "(reveal s r k = Inr s' \<and> \<not> (game_over s' \<and> \<not> won s') \<longrightarrow>
            (won s' \<and> game_over s' \<longleftrightarrow>
               int (card (revealed s')) = rows (cfg s') * cols (cfg s') - mines (cfg s')))
         \<and> (\<not> game_over s \<and> reveal s r k = Inr s' \<and> (r, k) \<in> mine_cells s'
              \<and> in_bounds (cfg s) r k \<and> (r, k) \<notin> flags s \<and> (r, k) \<notin> revealed s \<longrightarrow>
               game_over s' \<and> \<not> won s')
         \<and> (won s \<longrightarrow> game_over s)
         \<and> (game_over s \<and> step\<^sup>*\<^sup>* s t \<longrightarrow> t = s)
         \<and> (won s \<longleftrightarrow>
               revealed s \<inter> mine_cells s = {}
               \<and> int (card (revealed s)) = rows (cfg s) * cols (cfg s) - mines (cfg s))"
proof -
  have p1: "reveal s r k = Inr s' \<and> \<not> (game_over s' \<and> \<not> won s') \<longrightarrow>
            (won s' \<and> game_over s' \<longleftrightarrow>
               int (card (revealed s')) = rows (cfg s') * cols (cfg s') - mines (cfg s'))"
  proof
  assume a: "reveal s r k = Inr s' \<and> \<not> (game_over s' \<and> \<not> won s')"
  note i = engine_invD[OF reachable_inv[OF reveal_reachable[OF assms conjunct1[OF a]]]]
  from a i(12) have "revealed s' \<inter> mine_cells s' = {}" by simp
  with i(10,11) show "(won s' \<and> game_over s') =
      (int (card (revealed s')) = rows (cfg s') * cols (cfg s') - mines (cfg s'))"
    by auto
  qed
  have p2: "\<not> game_over s \<and> reveal s r k = Inr s' \<and> (r, k) \<in> mine_cells s'
              \<and> in_bounds (cfg s) r k \<and> (r, k) \<notin> flags s \<and> (r, k) \<notin> revealed s \<longrightarrow>
               game_over s' \<and> \<not> won s'"
  proof
  assume a: "\<not> game_over s \<and> reveal s r k = Inr s' \<and> (r, k) \<in> mine_cells s'
              \<and> in_bounds (cfg s) r k \<and> (r, k) \<notin> flags s \<and> (r, k) \<notin> revealed s"
  then have r: "reveal s r k = Inr s'" by simp
  note i = engine_invD[OF reachable_inv[OF reveal_reachable[OF assms r]]]
  have e: "\<not> game_over s" "in_bounds (cfg s) r k" "(r, k) \<notin> flags s" "(r, k) \<notin> revealed s"
    using a by simp_all
  have "mines_placed s \<or> 0 \<le> mines (cfg s)"
    using reveal_negative_mines[OF e] r by fastforce
  from reveal_effective[OF reachable_inv[OF assms] e this] obtain s1 R where s1:
    "(r, k) \<in> mine_cells s1 \<Longrightarrow>
           reveal s r k = Inr (s1\<lparr>game_over := True, won := False,
                                  revealed := insert (r, k) (revealed s1)\<rparr>)"
    "(r, k) \<notin> mine_cells s1 \<Longrightarrow>
           reveal s r k = Inr (check_win (s1\<lparr>revealed := R\<rparr>))
           \<and> flood_reveal s1 (r, k) = Inr (s1\<lparr>revealed := R\<rparr>)
           \<and> insert (r, k) (revealed s) \<subseteq> R \<and> R \<subseteq> board (cfg s)
           \<and> R \<inter> flags s = {} \<and> R \<inter> mine_cells s1 = {}" by metis
  have "(r, k) \<in> mine_cells s1"
  proof (rule ccontr)
    assume n: "(r, k) \<notin> mine_cells s1"
    from s1(2)[OF n] r have "s' = check_win (s1\<lparr>revealed := R\<rparr>)" by simp
    then have "mine_cells s' = mine_cells s1" by (simp add: check_win_def)
    with a n show False by simp
  qed
  from s1(1)[OF this] r show "game_over s' \<and> \<not> won s'" by auto
  qed
  have p3: "won s \<longrightarrow> game_over s"
    using engine_invD(10)[OF reachable_inv[OF assms]] by simp
  have p4: "game_over s \<and> step\<^sup>*\<^sup>* s t \<longrightarrow> t = s"
    using steps_game_over by blast
  have p5: "won s \<longleftrightarrow>
               revealed s \<inter> mine_cells s = {}
               \<and> int (card (revealed s)) = rows (cfg s) * cols (cfg s) - mines (cfg s)"
    by (rule engine_invD(11)[OF reachable_inv[OF assms]])
  from p1 p2 p3 p4 p5 show ?thesis by (intro conjI)
qed

theorem win_exactly_when_safe_cells_revealed_witness:
  "reachable fresh_1x2 \<and> reveal fresh_1x2 0 0 = Inr won_1x2
   \<and> won won_1x2 \<and> game_over won_1x2
   \<and> int (card (revealed won_1x2)) = rows (cfg won_1x2) * cols (cfg won_1x2) - mines (cfg won_1x2)
   \<and> reachable opened_2x2 \<and> \<not> game_over opened_2x2 \<and> reveal opened_2x2 0 1 = Inr lost_2x2
   \<and> (0, 1) \<in> mine_cells lost_2x2 \<and> game_over lost_2x2 \<and> \<not> won lost_2x2
   \<and> reachable lost_2x2 \<and> step\<^sup>*\<^sup>* lost_2x2 (toggle_flag lost_2x2 1 1)
   \<and> toggle_flag lost_2x2 1 1 = lost_2x2"
proof -
  have st: "step\<^sup>*\<^sup>* lost_2x2 (toggle_flag lost_2x2 1 1)"
    by (rule r_into_rtranclp) (rule step_flag[OF refl])
  have ib: "in_bounds (cfg opened_2x2) 0 1"
    using opened_2x2_fields by (simp add: in_bounds_def cfg_2x2_def)
  from win_exactly_when_safe_cells_revealed[OF reachable_fresh_1x2, of 0 0 won_1x2 fresh_1x2]
    win_exactly_when_safe_cells_revealed[OF reachable_opened_2x2, of 0 1 lost_2x2 opened_2x2]
    win_exactly_when_safe_cells_revealed[OF reachable_lost_2x2, of 0 0 lost_2x2 "toggle_flag lost_2x2 1 1"]
    reachable_fresh_1x2 reachable_opened_2x2 reachable_lost_2x2
    reveal_fresh_1x2 reveal_opened_2x2 won_1x2_fields opened_2x2_fields lost_2x2_fields st ib
  show ?thesis by simp
qed

theorem count_met_in_lost_game:
  "reachable late_loss_2x2 \<and> (1, 1) \<notin> mine_cells late_loss_2x2
   \<and> reveal late_loss_2x2 1 1 = Inr late_loss_2x2
   \<and> int (card (revealed late_loss_2x2))
       = rows (cfg late_loss_2x2) * cols (cfg late_loss_2x2) - mines (cfg late_loss_2x2)
   \<and> game_over late_loss_2x2 \<and> \<not> won late_loss_2x2"
proof -
  note f = conjunct1[OF late_loss_2x2_fields]
    conjunct1[OF conjunct2[OF late_loss_2x2_fields]]
    conjunct1[OF conjunct2[OF conjunct2[OF late_loss_2x2_fields]]]
    conjunct1[OF conjunct2[OF conjunct2[OF conjunct2[OF late_loss_2x2_fields]]]]
    conjunct2[OF conjunct2[OF conjunct2[OF conjunct2[OF late_loss_2x2_fields]]]]
  have m: "(1, 1) \<notin> mine_cells late_loss_2x2" unfolding f(2) by simp
  have n: "reveal late_loss_2x2 1 1 = Inr late_loss_2x2" using f(3) by (simp add: reveal_noop)
  from reachable_late_loss_2x2 m n f(5) f(3) f(4) show ?thesis by (intro conjI)
qed

text \<open>
  C3. The constructor raises (\<open>ValueError\<close>, with no engine built) exactly when
  \<open>mines \<ge> rows * cols\<close>; for every other configuration it returns the initial engine:
  no mines, an all-zero grid of \<open>rows\<close> by \<open>cols\<close> entries, nothing revealed or
  flagged, no flag of the game set. There is no lower bound on the mines: a negative
  number of mines is accepted.
\<close>

theorem create_fails_iff_too_many_mines:
  "(create c g = Inl ValueError \<longleftrightarrow> rows c * cols c \<le> mines c)
   \<and> (create c g = Inr \<lparr>cfg = c, rng = g, mine_cells = {},
                          adj = replicate (nat (rows c)) (replicate (nat (cols c)) 0),
                          revealed = {}, flags = {},
                          mines_placed = False, game_over = False, won = False\<rparr>
        \<longleftrightarrow> mines c < rows c * cols c)"
  by (simp add: create_def)

theorem create_accepts_negative_mines:
  "mines cfg_negative < 0
   \<and> create cfg_negative zero_draws =
         Inr \<lparr>cfg = cfg_negative, rng = zero_draws, mine_cells = {}, adj = [[0, 0], [0, 0]],
              revealed = {}, flags = {}, mines_placed = False, game_over = False, won = False\<rparr>"
  by (simp add: create_def cfg_negative_def numeral_2_eq_2)

text \<open>
  C4. In every reachable state with the mines placed, the entry of the grid for a board
  cell \<open>(r, k)\<close> is read without error and equals the number of mines on the board at
  Chebyshev distance 1 of the cell, counted from the mine set.
\<close>

theorem adjacency_exact:
  assumes "reachable s" and "mines_placed s" and "in_bounds (cfg s) r k"
  shows "adj_get (adj s) r k = Inr (count_adjacent_mines (cfg s) (mine_cells s) r k)"
proof -
  note i = engine_invD[OF reachable_inv[OF assms(1)]]
  have p: "(r, k) \<in> board (cfg s)" using assms(3) by (simp add: board_def)
  from adj_get_on_board[OF i(2) p] i(8)[OF assms(2) p] show ?thesis by simp
qed

theorem adjacency_exact_witness:
  "reachable opened_2x2 \<and> mines_placed opened_2x2 \<and> in_bounds (cfg opened_2x2) 1 0
   \<and> adj_get (adj opened_2x2) 1 0 = Inr 1
   \<and> count_adjacent_mines (cfg opened_2x2) (mine_cells opened_2x2) 1 0 = 1"
proof -
  have h: "mines_placed opened_2x2" "in_bounds (cfg opened_2x2) 1 0"
    using opened_2x2_fields by (simp_all add: in_bounds_def cfg_2x2_def)
  have "adj_get (adj opened_2x2) 1 0 = Inr 1" by code_simp
  with adjacency_exact[OF reachable_opened_2x2 h] reachable_opened_2x2 h show ?thesis by simp
qed

text \<open>
  C5. Once \<open>game_over\<close> is set, \<open>reveal\<close> and \<open>toggle_flag\<close> return the engine as it
  is, whatever the coordinate: no field changes. (This holds in every state with
  \<open>game_over\<close> set, reachable or not.)
\<close>

theorem game_over_is_terminal:
  "game_over s \<Longrightarrow> reveal s r k = Inr s \<and> toggle_flag s r k = s"
  by (simp add: reveal_def toggle_flag_def)

theorem game_over_is_terminal_witness:
  "reachable lost_2x2 \<and> game_over lost_2x2 \<and> reveal lost_2x2 1 1 = Inr lost_2x2
   \<and> toggle_flag lost_2x2 7 (-3) = lost_2x2"
  using game_over_is_terminal[of lost_2x2 1 1] game_over_is_terminal[of lost_2x2 7 "-3"]
    reachable_lost_2x2 lost_2x2_fields
  by simp

text \<open>
  C6. In every reachable state no cell is both revealed and flagged; \<open>toggle_flag\<close> on
  a revealed cell and \<open>reveal\<close> on a flagged cell return the engine as it is, so no flag
  is set on a revealed cell, no flagged cell is revealed, and no mines are placed by
  such a \<open>reveal\<close>.
\<close>

theorem revealed_flags_disjoint:
  assumes "reachable s"
  shows "revealed s \<inter> flags s = {}
         \<and> ((r, k) \<in> revealed s \<longrightarrow> toggle_flag s r k = s)
         \<and> ((r', k') \<in> flags s \<longrightarrow> reveal s r' k' = Inr s)"
  using engine_invD(6)[OF reachable_inv[OF assms]]
  by (simp add: toggle_flag_def reveal_def)

theorem revealed_flags_disjoint_witness:
  "reachable flagged_2x2 \<and> revealed flagged_2x2 \<inter> flags flagged_2x2 = {}
   \<and> (0, 0) \<in> revealed flagged_2x2 \<and> toggle_flag flagged_2x2 0 0 = flagged_2x2
   \<and> (1, 1) \<in> flags flagged_2x2 \<and> reveal flagged_2x2 1 1 = Inr flagged_2x2"
  using revealed_flags_disjoint[OF reachable_flagged_2x2, of 0 0 1 1]
    reachable_flagged_2x2 flagged_2x2_fields
  by simp

text \<open>
  C7. For an engine whose configuration has \<open>0 < rows\<close> and \<open>0 \<le> mines < rows * cols\<close>,
  and any safe cell: the placement returns; the mine set it leaves is finite, has exactly
  \<open>mines\<close> cells, all on the board, and does not hold the safe cell; and from a reachable
  state with the mines placed, no sequence of calls changes the mine set (or the grid of
  counts).
\<close>

theorem placement_succeeds_and_is_fixed:
  "(0 < rows (cfg s) \<and> 0 \<le> mines (cfg s) \<and> mines (cfg s) < rows (cfg s) * cols (cfg s) \<longrightarrow>
      (\<exists>s1. place_mines_first_click_safe s safe = Inr s1 \<and> mines_placed s1
            \<and> finite (mine_cells s1) \<and> int (card (mine_cells s1)) = mines (cfg s)
            \<and> mine_cells s1 \<subseteq> board (cfg s) \<and> safe \<notin> mine_cells s1))
   \<and> (reachable s \<and> mines_placed s \<and> step\<^sup>*\<^sup>* s s' \<longrightarrow>
         mines_placed s' \<and> mine_cells s' = mine_cells s \<and> adj s' = adj s
         \<and> int (card (mine_cells s')) = mines (cfg s'))"
proof -
  have p1: "0 < rows (cfg s) \<and> 0 \<le> mines (cfg s) \<and> mines (cfg s) < rows (cfg s) * cols (cfg s) \<longrightarrow>
      (\<exists>s1. place_mines_first_click_safe s safe = Inr s1 \<and> mines_placed s1
            \<and> finite (mine_cells s1) \<and> int (card (mine_cells s1)) = mines (cfg s)
            \<and> mine_cells s1 \<subseteq> board (cfg s) \<and> safe \<notin> mine_cells s1)"
  proof
    assume a: "0 < rows (cfg s) \<and> 0 \<le> mines (cfg s) \<and> mines (cfg s) < rows (cfg s) * cols (cfg s)"
    then have "0 < rows (cfg s) * cols (cfg s)" by simp
    with a have "0 < cols (cfg s)" by (simp add: zero_less_mult_iff)
    with a have "int (card (board (cfg s))) = rows (cfg s) * cols (cfg s)"
      by (simp add: card_board nat_mult_distrib[symmetric])
    with a have "mines (cfg s) < int (card (board (cfg s)))" by simp
    from place_mines_ok[OF _ this, of safe] a obtain M a' g where p:
      "place_mines_first_click_safe s safe =
         Inr (s\<lparr>rng := g, mine_cells := M, adj := a', mines_placed := True\<rparr>)"
      "finite M" "int (card M) = mines (cfg s)" "M \<subseteq> board (cfg s)" "safe \<notin> M"
      by metis
    show "\<exists>s1. place_mines_first_click_safe s safe = Inr s1 \<and> mines_placed s1
            \<and> finite (mine_cells s1) \<and> int (card (mine_cells s1)) = mines (cfg s)
            \<and> mine_cells s1 \<subseteq> board (cfg s) \<and> safe \<notin> mine_cells s1"
      by (rule exI[of _ "s\<lparr>rng := g, mine_cells := M, adj := a', mines_placed := True\<rparr>"])
         (use p in simp)
  qed
  have p2: "reachable s \<and> mines_placed s \<and> step\<^sup>*\<^sup>* s s' \<longrightarrow>
         mines_placed s' \<and> mine_cells s' = mine_cells s \<and> adj s' = adj s
         \<and> int (card (mine_cells s')) = mines (cfg s')"
  proof
    assume a: "reachable s \<and> mines_placed s \<and> step\<^sup>*\<^sup>* s s'"
    then have "reachable s' \<and> mines_placed s' \<and> mine_cells s' = mine_cells s \<and> cfg s' = cfg s
        \<and> adj s' = adj s"
      using steps_mines_fixed by blast
    then show "mines_placed s' \<and> mine_cells s' = mine_cells s \<and> adj s' = adj s
         \<and> int (card (mine_cells s')) = mines (cfg s')"
      using engine_invD(7)[OF reachable_inv, of s'] by simp
  qed
  from p1 p2 show ?thesis by (intro conjI)
qed

theorem placement_succeeds_and_is_fixed_witness:
  "0 < rows (cfg fresh_2x2) \<and> 0 \<le> mines (cfg fresh_2x2)
   \<and> mines (cfg fresh_2x2) < rows (cfg fresh_2x2) * cols (cfg fresh_2x2)
   \<and> \<not> isl (place_mines_first_click_safe fresh_2x2 (0, 0))
   \<and> mine_cells (projr (place_mines_first_click_safe fresh_2x2 (0, 0))) = {(0, 1)}
   \<and> reachable opened_2x2 \<and> mines_placed opened_2x2 \<and> step\<^sup>*\<^sup>* opened_2x2 lost_2x2
   \<and> mine_cells lost_2x2 = mine_cells opened_2x2
   \<and> int (card (mine_cells lost_2x2)) = mines (cfg lost_2x2)"
proof -
  have st: "step\<^sup>*\<^sup>* opened_2x2 lost_2x2"
    by (rule r_into_rtranclp) (rule step_reveal[OF reveal_opened_2x2])
  have h: "0 < rows (cfg fresh_2x2) \<and> 0 \<le> mines (cfg fresh_2x2)
   \<and> mines (cfg fresh_2x2) < rows (cfg fresh_2x2) * cols (cfg fresh_2x2)"
    using fresh_2x2_fields by (simp add: cfg_2x2_def)
  have ev: "mine_cells (projr (place_mines_first_click_safe fresh_2x2 (0, 0))) = {(0, 1)}"
    by code_simp
  from placement_succeeds_and_is_fixed[of fresh_2x2 "(0, 0)" fresh_2x2] h
  have a: "\<not> isl (place_mines_first_click_safe fresh_2x2 (0, 0))" by auto
  from placement_succeeds_and_is_fixed[of opened_2x2 "(0, 0)" lost_2x2] st
    reachable_opened_2x2 opened_2x2_fields lost_2x2_fields
  have b: "mine_cells lost_2x2 = mine_cells opened_2x2
     \<and> int (card (mine_cells lost_2x2)) = mines (cfg lost_2x2)" by simp
  from a b h ev st reachable_opened_2x2 opened_2x2_fields lost_2x2_fields show ?thesis
    by (simp add: cfg_2x2_def)
qed

theorem placement_fails_on_negative_mines:
  "mines cfg_negative < rows cfg_negative * cols cfg_negative
   \<and> create cfg_negative zero_draws = Inr fresh_negative
   \<and> place_mines_first_click_safe fresh_negative (0, 0) = Inl ValueError"
proof -
  have "place_mines_first_click_safe fresh_negative (0, 0) = Inl ValueError"
    by (rule place_mines_negative) (use fresh_negative_fields in \<open>simp add: cfg_negative_def\<close>)
  then show ?thesis using create_negative by (simp add: cfg_negative_def)
qed

text \<open>
  C8. While the game is not over, \<open>toggle_flag\<close> on an unrevealed board cell flips the
  membership of that cell in the flags, touches no other cell and no other field, and a
  second call gives back the engine as it was.
\<close>

theorem toggle_flag_round_trip:
  assumes "\<not> game_over s" and "in_bounds (cfg s) r k" and "(r, k) \<notin> revealed s"
  shows "toggle_flag (toggle_flag s r k) r k = s
         \<and> ((r, k) \<in> flags (toggle_flag s r k) \<longleftrightarrow> (r, k) \<notin> flags s)
         \<and> flags (toggle_flag s r k) - {(r, k)} = flags s - {(r, k)}
         \<and> toggle_flag s r k = s\<lparr>flags := flags (toggle_flag s r k)\<rparr>"
  using assms by (auto simp: toggle_flag_def insert_absorb)

theorem toggle_flag_round_trip_witness:
  "reachable opened_2x2 \<and> \<not> game_over opened_2x2 \<and> in_bounds (cfg opened_2x2) 1 1
   \<and> (1, 1) \<notin> revealed opened_2x2
   \<and> toggle_flag (toggle_flag opened_2x2 1 1) 1 1 = opened_2x2
   \<and> (1, 1) \<in> flags (toggle_flag opened_2x2 1 1) \<and> (1, 1) \<notin> flags opened_2x2"
proof -
  have h: "\<not> game_over opened_2x2" "in_bounds (cfg opened_2x2) 1 1"
    "(1, 1) \<notin> revealed opened_2x2" "(1, 1) \<notin> flags opened_2x2"
    using opened_2x2_fields by (simp_all add: in_bounds_def cfg_2x2_def)
  from toggle_flag_round_trip[OF h(1,2,3)] h reachable_opened_2x2 show ?thesis by simp
qed




text \<open>
  C10. In every reachable state of a game that is not over, no revealed cell is a mine.
  A \<open>reveal\<close> that leaves a mine among the revealed cells sets \<open>game_over\<close> and clears
  \<open>won\<close> in the same call, and the flood reveal from a board cell that is not a mine
  adds no mine to the revealed cells.
\<close>

theorem no_mine_revealed_while_playing:
  assumes "reachable s"
  shows "(\<not> game_over s \<longrightarrow> revealed s \<inter> mine_cells s = {})
         \<and> (reveal s r k = Inr s' \<and> revealed s' \<inter> mine_cells s' \<noteq> {} \<longrightarrow>
               game_over s' \<and> \<not> won s')
         \<and> (in_bounds (cfg s) r k \<and> (r, k) \<notin> mine_cells s \<longrightarrow>
              (\<exists>R. flood_reveal s (r, k) = Inr (s\<lparr>revealed := R\<rparr>)
                    \<and> R \<inter> mine_cells s \<subseteq> revealed s))"
proof -
  have p1: "\<not> game_over s \<longrightarrow> revealed s \<inter> mine_cells s = {}"
    using engine_invD(12)[OF reachable_inv[OF assms]] by auto
  have p2: "reveal s r k = Inr s' \<and> revealed s' \<inter> mine_cells s' \<noteq> {} \<longrightarrow>
               game_over s' \<and> \<not> won s'"
  proof
    assume a: "reveal s r k = Inr s' \<and> revealed s' \<inter> mine_cells s' \<noteq> {}"
    from engine_invD(12)[OF reachable_inv[OF reveal_reachable[OF assms conjunct1[OF a]]]] a
    show "game_over s' \<and> \<not> won s'" by simp
  qed
  have p3: "in_bounds (cfg s) r k \<and> (r, k) \<notin> mine_cells s \<longrightarrow>
              (\<exists>R. flood_reveal s (r, k) = Inr (s\<lparr>revealed := R\<rparr>)
                    \<and> R \<inter> mine_cells s \<subseteq> revealed s)"
  proof
  assume a: "in_bounds (cfg s) r k \<and> (r, k) \<notin> mine_cells s"
  then have "set [(r, k)] \<subseteq> board (cfg s)" by (simp add: board_def)
  from flood_loop_ok[OF engine_invD(2)[OF reachable_inv[OF assms]] this] obtain R where R:
    "flood_loop s [(r, k)] = Inr (s\<lparr>revealed := R\<rparr>)"
    "R \<inter> mine_cells s \<subseteq> revealed s \<union> set [(r, k)]"
    by (elim exE conjE)
  have "flood_reveal s (r, k) = Inr (s\<lparr>revealed := R\<rparr>)" by (simp add: flood_reveal_def R(1))
  moreover have "R \<inter> mine_cells s \<subseteq> revealed s" using R(2) a by auto
  ultimately show "\<exists>R. flood_reveal s (r, k) = Inr (s\<lparr>revealed := R\<rparr>)
                    \<and> R \<inter> mine_cells s \<subseteq> revealed s"
    by (intro exI[of _ R] conjI)
  qed
  from p1 p2 p3 show ?thesis by (intro conjI)
qed

theorem no_mine_revealed_while_playing_witness:
  "reachable opened_2x2 \<and> \<not> game_over opened_2x2
   \<and> revealed opened_2x2 \<inter> mine_cells opened_2x2 = {}
   \<and> reveal opened_2x2 0 1 = Inr lost_2x2 \<and> revealed lost_2x2 \<inter> mine_cells lost_2x2 \<noteq> {}
   \<and> game_over lost_2x2 \<and> \<not> won lost_2x2
   \<and> in_bounds (cfg opened_2x2) 1 1 \<and> (1, 1) \<notin> mine_cells opened_2x2
   \<and> revealed (projr (flood_reveal opened_2x2 (1, 1))) \<inter> mine_cells opened_2x2 = {}"
proof -
  have ib: "in_bounds (cfg opened_2x2) 1 1"
    using opened_2x2_fields by (simp add: in_bounds_def cfg_2x2_def)
  from no_mine_revealed_while_playing[OF reachable_opened_2x2, of 0 1 lost_2x2]
  have a: "revealed opened_2x2 \<inter> mine_cells opened_2x2 = {}" "game_over lost_2x2 \<and> \<not> won lost_2x2"
    using opened_2x2_fields lost_2x2_fields reveal_opened_2x2 by simp_all
  from no_mine_revealed_while_playing[OF reachable_opened_2x2, of 1 1 lost_2x2]
  obtain R where R: "flood_reveal opened_2x2 (1, 1) = Inr (opened_2x2\<lparr>revealed := R\<rparr>)"
    "R \<inter> mine_cells opened_2x2 \<subseteq> revealed opened_2x2"
    using ib opened_2x2_fields by auto
  have "revealed (projr (flood_reveal opened_2x2 (1, 1))) \<inter> mine_cells opened_2x2 = {}"
    using R a(1) by auto
  then show ?thesis
    using a ib reachable_opened_2x2 opened_2x2_fields lost_2x2_fields reveal_opened_2x2 by simp
qed

end
